theory Spec2Isabelle
  imports Complex_Main "HOL-Library.Multiset"
begin

section \<open>RailNav routing graph engine (backend/app.py)\<close>

text \<open>
  A shallow embedding of the routing core of \<^verbatim>\<open>backend/app.py\<close>: the geometry helper
  \<^verbatim>\<open>_haversine_m\<close>, the two graph builders, the nearest-node resolver, the way
  classifier of the pedestrian fetch and the Dijkstra search.

  Python floats are read as real numbers. Node identifiers are Python ints. A Python
  dict whose iteration order or finiteness matters (the node table, the graph) is an
  association list with \<open>map_of\<close> as lookup; the edge-category dict, which is only ever
  looked up and compared, is a map keyed by the frozenset \<open>{u, v}\<close>.
\<close>

subsection \<open>Geometry\<close>

definition radians :: "real \<Rightarrow> real" where
  "radians x = x * pi / 180"

text \<open>\<^verbatim>\<open>math.atan2(y, x)\<close> on reals.\<close>

definition atan2 :: "real \<Rightarrow> real \<Rightarrow> real" where
  "atan2 y x =
     (if 0 < x then arctan (y / x)
      else if x < 0 then (if 0 \<le> y then arctan (y / x) + pi else arctan (y / x) - pi)
      else if 0 < y then pi / 2
      else if y < 0 then - (pi / 2)
      else 0)"

definition hav_a :: "real \<Rightarrow> real \<Rightarrow> real \<Rightarrow> real \<Rightarrow> real" where
  "hav_a lat1 lon1 lat2 lon2 =
     (let phi1 = radians lat1; phi2 = radians lat2;
          dphi = radians (lat2 - lat1);
          dlambda = radians (lon2 - lon1)
      in (sin (dphi / 2))\<^sup>2 + cos phi1 * cos phi2 * (sin (dlambda / 2))\<^sup>2)"

definition haversine_m :: "real \<Rightarrow> real \<Rightarrow> real \<Rightarrow> real \<Rightarrow> real" where
  "haversine_m lat1 lon1 lat2 lon2 =
     (let R = 6371000;
          a = hav_a lat1 lon1 lat2 lon2;
          c = 2 * atan2 (sqrt a) (sqrt (1 - a))
      in R * c)"

subsection \<open>Data model\<close>

type_synonym node_id = int
type_synonym coord = "real \<times> real"
type_synonym node_table = "(node_id \<times> coord) list"
type_synonym adjacency = "(node_id \<times> real) list"
type_synonym graph = "(node_id \<times> adjacency) list"
type_synonym edge_types = "node_id set \<rightharpoonup> string"

text \<open>
  A way dict as the fetchers build it: \<^verbatim>\<open>'nodes'\<close> is always there, \<^verbatim>\<open>'category'\<close> and
  \<^verbatim>\<open>'highway'\<close> are read with \<^verbatim>\<open>.get\<close>.
\<close>

record way =
  nodes :: "node_id list"
  highway :: "string option"
  category :: "string option"

datatype error = KeyError node_id

text \<open>\<^verbatim>\<open>way.get('category', way.get('highway', 'path'))\<close>\<close>

definition way_category :: "way \<Rightarrow> string" where
  "way_category w =
     (case category w of Some c \<Rightarrow> c
      | None \<Rightarrow> (case highway w of Some h \<Rightarrow> h | None \<Rightarrow> ''path''))"

text \<open>\<^verbatim>\<open>graph.get(u, [])\<close>, which never creates a key.\<close>

definition graph_get :: "graph \<Rightarrow> node_id \<Rightarrow> adjacency" where
  "graph_get g u = (case map_of g u of None \<Rightarrow> [] | Some adj \<Rightarrow> adj)"

text \<open>\<^verbatim>\<open>graph[u].append(e)\<close> on a \<^verbatim>\<open>defaultdict(list)\<close>: a missing key is created last.\<close>

fun graph_append :: "graph \<Rightarrow> node_id \<Rightarrow> node_id \<times> real \<Rightarrow> graph" where
  "graph_append [] u e = [(u, [e])]"
| "graph_append ((k, adj) # g) u e =
     (if k = u then (k, adj @ [e]) # g else (k, adj) # graph_append g u e)"

text \<open>\<^verbatim>\<open>type_rank.get(c, -1)\<close>\<close>

definition type_rank :: "string \<Rightarrow> int" where
  "type_rank c =
     (if c = ''steps'' then 5
      else if c = ''sidewalk'' then 4
      else if c = ''pedestrian_street'' then 3
      else if c = ''foot_path'' then 2
      else if c = ''informal_path'' then 1
      else if c = ''path'' then 0
      else - 1)"

subsection \<open>\<^verbatim>\<open>_build_graph\<close>\<close>

text \<open>The rank rule of \<^verbatim>\<open>_build_graph\<close> on one edge key.\<close>

definition rank_update :: "node_id set \<Rightarrow> string \<Rightarrow> edge_types \<Rightarrow> edge_types" where
  "rank_update ekey c et =
     (case et ekey of
        Some prev \<Rightarrow> if type_rank c > type_rank prev then et(ekey \<mapsto> c) else et
      | None \<Rightarrow> et(ekey \<mapsto> c))"

text \<open>
  The inner loop \<^verbatim>\<open>for i in range(1, len(node_ids))\<close> over the consecutive pairs of one
  way. \<^verbatim>\<open>nodes[u]\<close> raises \<^verbatim>\<open>KeyError\<close> on a missing identifier.
\<close>

fun build_graph_way ::
  "node_table \<Rightarrow> string \<Rightarrow> node_id list \<Rightarrow> graph \<times> edge_types \<Rightarrow> error + graph \<times> edge_types"
where
  "build_graph_way nt c (u # v # rest) (g, et) =
     (case map_of nt u of
        None \<Rightarrow> Inl (KeyError u)
      | Some (lat1, lon1) \<Rightarrow>
          (case map_of nt v of
             None \<Rightarrow> Inl (KeyError v)
           | Some (lat2, lon2) \<Rightarrow>
               (let w = haversine_m lat1 lon1 lat2 lon2;
                    g1 = graph_append g u (v, w);
                    g2 = graph_append g1 v (u, w)
                in build_graph_way nt c (v # rest) (g2, rank_update {u, v} c et))))"
| "build_graph_way nt c ids s = Inr s"

fun build_graph_ways ::
  "node_table \<Rightarrow> way list \<Rightarrow> graph \<times> edge_types \<Rightarrow> error + graph \<times> edge_types"
where
  "build_graph_ways nt [] s = Inr s"
| "build_graph_ways nt (w # ws) s =
     (case build_graph_way nt (way_category w) (nodes w) s of
        Inl e \<Rightarrow> Inl e
      | Inr s' \<Rightarrow> build_graph_ways nt ws s')"

definition build_graph :: "node_table \<Rightarrow> way list \<Rightarrow> error + graph \<times> edge_types" where
  "build_graph nt ways = build_graph_ways nt ways ([], Map.empty)"

subsection \<open>\<^verbatim>\<open>_build_hybrid_graph\<close>\<close>

text \<open>First loop: pedestrian ways, the category written unconditionally.\<close>

fun hybrid_ped_way ::
  "node_table \<Rightarrow> real \<Rightarrow> string \<Rightarrow> node_id list \<Rightarrow> graph \<times> edge_types \<Rightarrow> graph \<times> edge_types"
where
  "hybrid_ped_way nt pw c (u # v # rest) (g, et) =
     (case (map_of nt u, map_of nt v) of
        (Some (lat1, lon1), Some (lat2, lon2)) \<Rightarrow>
          (let w = haversine_m lat1 lon1 lat2 lon2 * pw;
               g1 = graph_append g u (v, w);
               g2 = graph_append g1 v (u, w)
           in hybrid_ped_way nt pw c (v # rest) (g2, et({u, v} \<mapsto> c)))
      | _ \<Rightarrow> hybrid_ped_way nt pw c (v # rest) (g, et))"
| "hybrid_ped_way nt pw c ids s = s"

text \<open>Second loop: highway ways, the category written only for a fresh key.\<close>

fun hybrid_hw_way ::
  "node_table \<Rightarrow> real \<Rightarrow> node_id list \<Rightarrow> graph \<times> edge_types \<Rightarrow> graph \<times> edge_types"
where
  "hybrid_hw_way nt hw (u # v # rest) (g, et) =
     (case (map_of nt u, map_of nt v) of
        (Some (lat1, lon1), Some (lat2, lon2)) \<Rightarrow>
          (let w = haversine_m lat1 lon1 lat2 lon2 * hw;
               g1 = graph_append g u (v, w);
               g2 = graph_append g1 v (u, w)
           in hybrid_hw_way nt hw (v # rest)
                (g2, if et {u, v} = None then et({u, v} \<mapsto> ''highway'') else et))
      | _ \<Rightarrow> hybrid_hw_way nt hw (v # rest) (g, et))"
| "hybrid_hw_way nt hw ids s = s"

definition build_hybrid_graph ::
  "node_table \<Rightarrow> way list \<Rightarrow> way list \<Rightarrow> real \<Rightarrow> real \<Rightarrow> graph \<times> edge_types"
where
  "build_hybrid_graph nt pedestrian_ways highway_ways pedestrian_weight highway_weight =
     fold (\<lambda>w. hybrid_hw_way nt highway_weight (nodes w)) highway_ways
       (fold (\<lambda>w. hybrid_ped_way nt pedestrian_weight (way_category w) (nodes w))
          pedestrian_ways ([], Map.empty))"


subsection \<open>\<^verbatim>\<open>_nearest_node\<close>\<close>

text \<open>
  The scan over \<^verbatim>\<open>nodes.items()\<close>. \<^verbatim>\<open>best_d\<close> starts at \<^verbatim>\<open>float('inf')\<close>, written
  \<open>None\<close>: every real distance is below it.
\<close>

fun nearest_node_loop ::
  "coord \<Rightarrow> node_table \<Rightarrow> graph \<Rightarrow> real \<Rightarrow> node_id option \<times> real option
     \<Rightarrow> node_id option \<times> real option"
where
  "nearest_node_loop p [] g max_distance_m best = best"
| "nearest_node_loop p ((nid, (lat, lng)) # rest) g max_distance_m (best_id, best_d) =
     (if map_of g nid = None then nearest_node_loop p rest g max_distance_m (best_id, best_d)
      else
        (let d = haversine_m (fst p) (snd p) lat lng in
         if (case best_d of None \<Rightarrow> True | Some b \<Rightarrow> d < b) \<and> d \<le> max_distance_m
         then nearest_node_loop p rest g max_distance_m (Some nid, Some d)
         else nearest_node_loop p rest g max_distance_m (best_id, best_d)))"

definition nearest_node :: "coord \<Rightarrow> node_table \<Rightarrow> graph \<Rightarrow> real \<Rightarrow> node_id option" where
  "nearest_node p nt g max_distance_m =
     fst (nearest_node_loop p nt g max_distance_m (None, None))"

subsection \<open>The way classifier of \<^verbatim>\<open>_fetch_pedestrian_ways\<close>\<close>

text \<open>\<^verbatim>\<open>tags.get(k, '')\<close>\<close>

definition tag_get :: "(string \<rightharpoonup> string) \<Rightarrow> string \<Rightarrow> string" where
  "tag_get tags k = (case tags k of None \<Rightarrow> [] | Some v \<Rightarrow> v)"

text \<open>
  The \<^verbatim>\<open>if\<close>/\<^verbatim>\<open>elif\<close> chain that sets \<^verbatim>\<open>include_way\<close> and \<^verbatim>\<open>category\<close>; the result is
  \<open>Some category\<close> when the way is appended and \<open>None\<close> when it is left out. The source
  reads the \<^verbatim>\<open>crossing\<close> tag into a local and never looks at it again.
\<close>

definition pedestrian_category :: "(string \<rightharpoonup> string) \<Rightarrow> string option" where
  "pedestrian_category tags =
     (let hw = tag_get tags ''highway'';
          footway_subtype = tag_get tags ''footway'';
          crossing = tag_get tags ''crossing'';
          informal = tag_get tags ''informal'';
          trail_vis = tag_get tags ''trail_visibility''
      in if hw = ''steps'' then Some ''steps''
         else if hw = ''pedestrian'' then Some ''pedestrian_street''
         else if hw = ''footway'' then
           (if footway_subtype = ''sidewalk'' then Some ''sidewalk''
            else if footway_subtype = ''crossing'' then None
            else Some ''foot_path'')
         else if hw = ''path'' then
           (if informal = ''yes'' \<or> trail_vis \<noteq> [] then Some ''informal_path''
            else Some ''path'')
         else None)"

text \<open>
  What the second loop of \<^verbatim>\<open>_fetch_pedestrian_ways\<close> appends for one element of type
  \<^verbatim>\<open>'way'\<close>, given as its tag dict and its node list: the node list is filtered against
  the node table (\<^verbatim>\<open>[nid for nid in node_ids if nid in nodes]\<close>), an element with fewer
  than two nodes left is skipped, and so is one the classifier leaves out.
\<close>

definition fetch_way :: "node_table \<Rightarrow> (string \<rightharpoonup> string) \<times> node_id list \<Rightarrow> way option" where
  "fetch_way nt el =
     (let tags = fst el; node_ids = snd el;
          hw = tag_get tags ''highway'';
          filtered = filter (\<lambda>nid. map_of nt nid \<noteq> None) node_ids
      in if length filtered < 2 then None
         else (case pedestrian_category tags of
                 None \<Rightarrow> None
               | Some c \<Rightarrow> Some \<lparr>nodes = filtered, highway = Some hw, category = Some c\<rparr>))"

fun fetch_ways :: "node_table \<Rightarrow> ((string \<rightharpoonup> string) \<times> node_id list) list \<Rightarrow> way list" where
  "fetch_ways nt [] = []"
| "fetch_ways nt (el # els) =
     (case fetch_way nt el of
        None \<Rightarrow> fetch_ways nt els
      | Some w \<Rightarrow> w # fetch_ways nt els)"

subsection \<open>\<^verbatim>\<open>_shortest_path\<close>\<close>

text \<open>
  The local state of the search: \<^verbatim>\<open>dist\<close>, \<^verbatim>\<open>prev\<close>, \<^verbatim>\<open>heap\<close> and \<^verbatim>\<open>visited\<close>. A key of
  \<^verbatim>\<open>prev\<close> maps to \<open>None\<close> for Python's \<^verbatim>\<open>None\<close> (the start node) and to \<open>Some u\<close> for a
  predecessor. The heap is the list of its entries: \<^verbatim>\<open>heappush\<close> adds one,
  \<^verbatim>\<open>heappop\<close> removes the least entry in Python's tuple order (distance first, then
  node identifier).
\<close>

record search_state =
  dist_m :: "node_id \<rightharpoonup> real"
  prev_m :: "node_id \<rightharpoonup> node_id option"
  heap :: "(real \<times> node_id) list"
  visited :: "node_id set"

definition tuple_less :: "real \<times> node_id \<Rightarrow> real \<times> node_id \<Rightarrow> bool" where
  "tuple_less a b \<longleftrightarrow> fst a < fst b \<or> (fst a = fst b \<and> snd a < snd b)"

fun heap_min :: "real \<times> node_id \<Rightarrow> (real \<times> node_id) list \<Rightarrow> real \<times> node_id" where
  "heap_min m [] = m"
| "heap_min m (x # xs) = heap_min (if tuple_less x m then x else m) xs"

text \<open>The body of \<^verbatim>\<open>for v, w in graph.get(u, [])\<close>; \<^verbatim>\<open>dist.get(v, float('inf'))\<close> is above every real.\<close>

definition relax_edge :: "real \<Rightarrow> node_id \<Rightarrow> node_id \<times> real \<Rightarrow> search_state \<Rightarrow> search_state" where
  "relax_edge d u e s =
     (let v = fst e; w = snd e; nd = d + w in
      if (case dist_m s v of None \<Rightarrow> True | Some dv \<Rightarrow> nd < dv)
      then s\<lparr>dist_m := (dist_m s)(v \<mapsto> nd), prev_m := (prev_m s)(v \<mapsto> Some u),
             heap := (nd, v) # heap s\<rparr>
      else s)"

definition relax :: "real \<Rightarrow> node_id \<Rightarrow> adjacency \<Rightarrow> search_state \<Rightarrow> search_state" where
  "relax d u es s = fold (relax_edge d u) es s"

text \<open>The nodes that can still be visited: the measure of the loop.\<close>

definition graph_nodes :: "graph \<Rightarrow> node_id set" where
  "graph_nodes g = fst ` set (concat (map snd g))"

definition pending :: "graph \<Rightarrow> search_state \<Rightarrow> node_id set" where
  "pending g s = (graph_nodes g \<union> snd ` set (heap s)) - visited s"

lemma heap_min_in: "heap_min m xs \<in> set (m # xs)"
  by (induction xs arbitrary: m) auto

lemma relax_rule:
  assumes "P s" and "\<And>e s. e \<in> set es \<Longrightarrow> P s \<Longrightarrow> P (relax_edge d u e s)"
  shows "P (relax d u es s)"
  using assms unfolding relax_def by (induction es arbitrary: s) auto

lemma relax_visited: "visited (relax d u es s) = visited s"
  by (rule relax_rule [where P = "\<lambda>t. visited t = visited s"])
    (auto simp: relax_edge_def Let_def)

lemma relax_heap_nodes:
  "snd ` set (heap (relax d u es s)) \<subseteq> snd ` set (heap s) \<union> fst ` set es"
  by (rule relax_rule [where P = "\<lambda>t. snd ` set (heap t) \<subseteq> snd ` set (heap s) \<union> fst ` set es"])
    (auto simp: relax_edge_def Let_def)

lemma graph_get_nodes: "fst ` set (graph_get g u) \<subseteq> graph_nodes g"
proof (cases "map_of g u")
  case None
  then show ?thesis by (simp add: graph_get_def)
next
  case (Some adj)
  then have "(u, adj) \<in> set g" by (rule map_of_SomeD)
  then have "set adj \<subseteq> set (concat (map snd g))" by force
  with Some show ?thesis unfolding graph_get_def graph_nodes_def by auto
qed

lemma finite_pending: "finite (pending g s)"
  unfolding pending_def graph_nodes_def by auto

lemma skip_decreases:
  assumes "(d, u) \<in> set (heap s)"
  shows "card (pending g (s\<lparr>heap := remove1 (d, u) (heap s)\<rparr>)) \<le> card (pending g s)
       \<and> length (remove1 (d, u) (heap s)) < length (heap s)"
proof -
  have "pending g (s\<lparr>heap := remove1 (d, u) (heap s)\<rparr>) \<subseteq> pending g s"
    using set_remove1_subset [of "(d, u)" "heap s"] unfolding pending_def by auto
  then have "card (pending g (s\<lparr>heap := remove1 (d, u) (heap s)\<rparr>)) \<le> card (pending g s)"
    by (rule card_mono [OF finite_pending])
  moreover have "length (remove1 (d, u) (heap s)) < length (heap s)"
    using assms length_pos_if_in_set [OF assms] by (simp add: length_remove1)
  ultimately show ?thesis by simp
qed

lemma visit_decreases:
  assumes "(d, u) \<in> set (heap s)" "u \<notin> visited s"
  shows "card (pending g (relax d u (graph_get g u)
            (s\<lparr>heap := remove1 (d, u) (heap s), visited := insert u (visited s)\<rparr>)))
       < card (pending g s)"
proof -
  let ?s2 = "s\<lparr>heap := remove1 (d, u) (heap s), visited := insert u (visited s)\<rparr>"
  let ?s3 = "relax d u (graph_get g u) ?s2"
  have h2: "set (heap ?s2) \<subseteq> set (heap s)"
    using set_remove1_subset [of "(d, u)" "heap s"] by auto
  have "snd ` set (heap ?s3) \<subseteq> snd ` set (heap s) \<union> graph_nodes g"
    using relax_heap_nodes [of d u "graph_get g u" ?s2] graph_get_nodes [of g u] h2 by blast
  moreover have "visited ?s3 = insert u (visited s)"
    by (simp add: relax_visited)
  ultimately have "pending g ?s3 \<subseteq> pending g s - {u}"
    unfolding pending_def by auto
  moreover have "u \<in> pending g s" using assms unfolding pending_def by force
  ultimately have "pending g ?s3 \<subset> pending g s" by auto
  then show ?thesis
    by (rule psubset_card_mono [OF finite_pending])
qed

text \<open>
  One iteration of \<^verbatim>\<open>while heap:\<close>. \<open>Inl\<close> leaves the loop (the heap is empty, or
  \<^verbatim>\<open>break\<close> at the goal); \<open>Inr\<close> goes on with the next iteration (after \<^verbatim>\<open>continue\<close> on
  a visited node, or after the neighbours of \<open>u\<close> are relaxed).
\<close>

definition dijkstra_step :: "graph \<Rightarrow> node_id \<Rightarrow> search_state \<Rightarrow> search_state + search_state" where
  "dijkstra_step g goal s =
     (case heap s of
        [] \<Rightarrow> Inl s
      | x # xs \<Rightarrow>
          (let (d, u) = heap_min x xs;
               s1 = s\<lparr>heap := remove1 (d, u) (heap s)\<rparr>
           in if u \<in> visited s then Inr s1
              else
                (let s2 = s1\<lparr>visited := insert u (visited s)\<rparr>
                 in if u = goal then Inl s2
                    else Inr (relax d u (graph_get g u) s2))))"

lemma dijkstra_step_decreases:
  assumes "dijkstra_step g goal s = Inr s'"
  shows "card (pending g s') < card (pending g s)
       \<or> (card (pending g s') = card (pending g s) \<and> length (heap s') < length (heap s))"
proof (cases "heap s")
  case Nil
  with assms show ?thesis by (simp add: dijkstra_step_def)
next
  case (Cons x xs)
  obtain d u where du: "heap_min x xs = (d, u)" by (cases "heap_min x xs")
  have m: "(d, u) \<in> set (heap s)" using heap_min_in [of x xs] Cons du by simp
  show ?thesis
  proof (cases "u \<in> visited s")
    case True
    then have "s' = s\<lparr>heap := remove1 (d, u) (heap s)\<rparr>"
      using assms Cons du by (simp add: dijkstra_step_def)
    with skip_decreases [OF m, of g] show ?thesis by auto
  next
    case False
    then have "s' = relax d u (graph_get g u)
        (s\<lparr>heap := remove1 (d, u) (heap s), visited := insert u (visited s)\<rparr>)"
      using assms Cons du by (simp add: dijkstra_step_def Let_def split: if_splits)
    with visit_decreases [OF m False, of g] show ?thesis by simp
  qed
qed

function dijkstra_loop :: "graph \<Rightarrow> node_id \<Rightarrow> search_state \<Rightarrow> search_state" where
  "dijkstra_loop g goal s =
     (case dijkstra_step g goal s of Inl r \<Rightarrow> r | Inr s' \<Rightarrow> dijkstra_loop g goal s')"
  by pat_completeness auto
termination
proof (relation "measures [\<lambda>(g, goal, s). card (pending g s), \<lambda>(g, goal, s). length (heap s)]",
    goal_cases)
  case 1
  show ?case by simp
next
  case (2 g goal s s')
  with dijkstra_step_decreases [of g goal s s'] show ?case by auto
qed

definition init_state :: "node_id \<Rightarrow> search_state" where
  "init_state start =
     \<lparr>dist_m = [start \<mapsto> 0], prev_m = [start \<mapsto> None], heap = [(0, start)], visited = {}\<rparr>"

text \<open>
  The reconstruction loop \<^verbatim>\<open>while cur in prev and prev[cur] is not None\<close>. Nothing in
  it bounds the number of iterations, so the model is partial: \<open>None\<close> stands for a
  loop that does not end.
\<close>

partial_function (option) reconstruct ::
  "(node_id \<rightharpoonup> node_id option) \<Rightarrow> node_id \<Rightarrow> node_id list \<Rightarrow> node_id list option"
where
  "reconstruct prv cur path =
     (case prv cur of
        Some (Some p) \<Rightarrow> reconstruct prv p (path @ [p])
      | _ \<Rightarrow> Some path)"

definition shortest_path :: "graph \<Rightarrow> node_id \<Rightarrow> node_id \<Rightarrow> node_id list option" where
  "shortest_path g start goal =
     (let s = dijkstra_loop g goal (init_state start) in
      if prev_m s goal = None \<and> goal \<noteq> start then Some []
      else
        (case reconstruct (prev_m s) goal [goal] of
           None \<Rightarrow> None
         | Some path \<Rightarrow> if last path \<noteq> start then Some [] else Some (rev path)))"


subsection \<open>Notions used in the statements and invariants\<close>

text \<open>The weight of an edge between \<open>u\<close> and \<open>v\<close> is the haversine distance of their coordinates.\<close>

definition weight_ok :: "node_table \<Rightarrow> node_id \<Rightarrow> node_id \<Rightarrow> real \<Rightarrow> bool" where
  "weight_ok nt u v w \<longleftrightarrow>
     (\<exists>lat1 lon1 lat2 lon2. map_of nt u = Some (lat1, lon1) \<and> map_of nt v = Some (lat2, lon2)
        \<and> w = haversine_m lat1 lon1 lat2 lon2)"

definition edge_ok :: "node_table \<Rightarrow> graph \<Rightarrow> bool" where
  "edge_ok nt g \<longleftrightarrow>
     (\<forall>u v w. (v, w) \<in> set (graph_get g u) \<longrightarrow>
        weight_ok nt u v w \<and> (u, w) \<in> set (graph_get g v))"






text \<open>A way on which the inner loop of \<^verbatim>\<open>_build_graph\<close> meets no missing identifier.\<close>

definition way_ok :: "node_table \<Rightarrow> node_id list \<Rightarrow> bool" where
  "way_ok nt ids \<longleftrightarrow> length ids < 2 \<or> (\<forall>u \<in> set ids. map_of nt u \<noteq> None)"

text \<open>The edge-category dict of a run of \<^verbatim>\<open>_build_graph\<close>, \<open>None\<close> when it raised.\<close>

definition edge_types_of :: "error + graph \<times> edge_types \<Rightarrow> edge_types option" where
  "edge_types_of r = (case r of Inl e \<Rightarrow> None | Inr (g, et) \<Rightarrow> Some et)"

definition point_dist :: "coord \<Rightarrow> coord \<Rightarrow> real" where
  "point_dist p c = haversine_m (fst p) (snd p) (fst c) (snd c)"

text \<open>The entries of the node table that \<^verbatim>\<open>_nearest_node\<close> does not skip.\<close>

definition candidates :: "node_table \<Rightarrow> graph \<Rightarrow> (node_id \<times> coord) set" where
  "candidates nt g = {(n, c). (n, c) \<in> set nt \<and> n \<in> fst ` set g}"

definition best_inv ::
  "coord \<Rightarrow> (node_id \<times> coord) set \<Rightarrow> real \<Rightarrow> node_id option \<times> real option \<Rightarrow> bool"
where
  "best_inv p S m best \<longleftrightarrow>
     (case best of
        (None, None) \<Rightarrow> (\<forall>(n, c) \<in> S. \<not> point_dist p c \<le> m)
      | (Some n, Some d) \<Rightarrow>
          d \<le> m \<and> (\<exists>c. (n, c) \<in> S \<and> point_dist p c = d)
          \<and> (\<forall>(n', c') \<in> S. d \<le> point_dist p c')
      | _ \<Rightarrow> False)"

text \<open>The directed edges of a graph, and the invariant of the search loop.\<close>

definition edge_rel :: "graph \<Rightarrow> (node_id \<times> node_id) set" where
  "edge_rel g = {(u, v). v \<in> fst ` set (graph_get g u)}"

definition inv_A :: "graph \<Rightarrow> node_id \<Rightarrow> search_state \<Rightarrow> bool" where
  "inv_A g start s \<longleftrightarrow>
     dom (prev_m s) = dom (dist_m s)
   \<and> start \<in> dom (prev_m s)
   \<and> (\<forall>v u. prev_m s v = Some (Some u) \<longrightarrow> u \<in> visited s \<and> (u, v) \<in> edge_rel g)
   \<and> visited s \<subseteq> dom (prev_m s)
   \<and> (\<forall>v. prev_m s v = Some None \<longrightarrow> v = start)
   \<and> dom (prev_m s) \<subseteq> visited s \<union> snd ` set (heap s)
   \<and> (\<forall>u \<in> visited s. \<forall>v. (u, v) \<in> edge_rel g \<longrightarrow> v \<in> dom (prev_m s))
   \<and> snd ` set (heap s) \<subseteq> dom (prev_m s)
   \<and> (\<forall>v \<in> dom (prev_m s). (start, v) \<in> (edge_rel g)\<^sup>*)"

text \<open>A list that follows \<^verbatim>\<open>prev\<close> from its head, and a node where the reconstruction stops.\<close>

fun is_chain :: "(node_id \<rightharpoonup> node_id option) \<Rightarrow> node_id list \<Rightarrow> bool" where
  "is_chain prv (x # y # zs) \<longleftrightarrow> prv x = Some (Some y) \<and> is_chain prv (y # zs)"
| "is_chain prv xs \<longleftrightarrow> True"

definition chain_end :: "(node_id \<rightharpoonup> node_id option) \<Rightarrow> node_id \<Rightarrow> bool" where
  "chain_end prv x \<longleftrightarrow> (\<forall>p. prv x \<noteq> Some (Some p))"

definition g0 :: graph where
  "g0 = [(1, [(2, 1)]), (2, [(1, 1), (3, 2)]), (3, [(2, 2)]), (4, [(5, 1)]), (5, [(4, 1)])]"

text \<open>
  Weights as \<^verbatim>\<open>_build_graph\<close> and \<^verbatim>\<open>_build_hybrid_graph\<close> produce them, and the
  invariant of the search loop on such graphs.
\<close>

definition nonneg_weights :: "graph \<Rightarrow> bool" where
  "nonneg_weights g \<longleftrightarrow> (\<forall>u v w. (v, w) \<in> set (graph_get g u) \<longrightarrow> 0 \<le> w)"

definition inv_N :: "graph \<Rightarrow> node_id \<Rightarrow> search_state \<Rightarrow> bool" where
  "inv_N g start s \<longleftrightarrow>
     ((visited s = {} \<and> heap s = [(0, start)] \<and> dist_m s = [start \<mapsto> 0])
        \<or> (start \<in> visited s \<and> dist_m s start = Some 0))
   \<and> (\<forall>y v w. y \<in> visited s \<and> (v, w) \<in> set (graph_get g y) \<longrightarrow>
         (\<exists>dy dv. dist_m s y = Some dy \<and> dist_m s v = Some dv \<and> dv \<le> dy + w))
   \<and> (\<forall>v dv. dist_m s v = Some dv \<and> v \<notin> visited s \<longrightarrow> (dv, v) \<in> set (heap s))
   \<and> (\<forall>y k x. y \<in> visited s \<and> (k, x) \<in> set (heap s) \<longrightarrow>
         (\<exists>dy. dist_m s y = Some dy \<and> dy \<le> k))
   \<and> (\<forall>k x. (k, x) \<in> set (heap s) \<longrightarrow> (\<exists>dx. dist_m s x = Some dx \<and> dx \<le> k))"

text \<open>
  A walk from \<open>u\<close> is the list of the adjacency entries it follows; \<open>walk_to g a v d\<close>
  says that some walk from \<open>a\<close> to \<open>v\<close> has weight \<open>d\<close>.
\<close>

fun is_walk :: "graph \<Rightarrow> node_id \<Rightarrow> (node_id \<times> real) list \<Rightarrow> bool" where
  "is_walk g u [] \<longleftrightarrow> True"
| "is_walk g u ((v, w) # es) \<longleftrightarrow> (v, w) \<in> set (graph_get g u) \<and> is_walk g v es"

definition walk_end :: "node_id \<Rightarrow> (node_id \<times> real) list \<Rightarrow> node_id" where
  "walk_end u es = (if es = [] then u else fst (last es))"

definition walk_weight :: "(node_id \<times> real) list \<Rightarrow> real" where
  "walk_weight es = sum_list (map snd es)"

definition walk_to :: "graph \<Rightarrow> node_id \<Rightarrow> node_id \<Rightarrow> real \<Rightarrow> bool" where
  "walk_to g a v d \<longleftrightarrow> (\<exists>es. is_walk g a es \<and> walk_end a es = v \<and> walk_weight es = d)"

definition inv_S :: "graph \<Rightarrow> node_id \<Rightarrow> search_state \<Rightarrow> bool" where
  "inv_S g start s \<longleftrightarrow>
     (\<forall>v dv. dist_m s v = Some dv \<longrightarrow> walk_to g start v dv)
   \<and> (\<forall>k x. (k, x) \<in> set (heap s) \<longrightarrow> walk_to g start x k)"

text \<open>
  The distance the search found: \<^verbatim>\<open>dist[goal]\<close> when the loop of \<^verbatim>\<open>_shortest_path\<close> is
  left, \<open>None\<close> when the goal was never discovered.
\<close>

definition search_distance :: "graph \<Rightarrow> node_id \<Rightarrow> node_id \<Rightarrow> real option" where
  "search_distance g start goal = dist_m (dijkstra_loop g goal (init_state start)) goal"

text \<open>
  Three nodes on the equator: a footway from node 1 over node 2 to node 3, and a road
  from node 1 straight to node 3. One degree of longitude on the equator is \<open>deg_m\<close>
  metres.
\<close>

definition deg_m :: real where
  "deg_m = 6371000 * pi / 180"

definition nt6 :: node_table where
  "nt6 = [(1, (0, 0)), (2, (0, 5)), (3, (0, 1))]"

definition ped6 :: "way list" where
  "ped6 = [\<lparr>nodes = [1, 2, 3], highway = Some ''footway'', category = Some ''foot_path''\<rparr>]"

definition hw6 :: "way list" where
  "hw6 = [\<lparr>nodes = [1, 3], highway = Some ''residential'', category = Some ''highway''\<rparr>]"

definition gp6 :: graph where
  "gp6 = [(1, [(2, 5 * deg_m)]), (2, [(1, 5 * deg_m), (3, 4 * deg_m)]), (3, [(2, 4 * deg_m)])]"

definition gh6 :: graph where
  "gh6 = [(1, [(2, 5 * deg_m), (3, 3 * deg_m)]), (2, [(1, 5 * deg_m), (3, 4 * deg_m)]),
          (3, [(2, 4 * deg_m), (1, 3 * deg_m)])]"

definition nt2 :: node_table where
  "nt2 = [(1, (0, 0)), (2, (0, 1))]"

definition w_steps :: way where
  "w_steps = \<lparr>nodes = [1, 2], highway = Some ''steps'', category = Some ''steps''\<rparr>"

definition w_path :: way where
  "w_path = \<lparr>nodes = [2, 1], highway = Some ''path'', category = Some ''path''\<rparr>"

section \<open>Properties of the graph builders\<close>

subsection \<open>Edge weights and symmetry of \<^verbatim>\<open>_build_graph\<close>\<close>

lemma graph_get_append:
  "graph_get (graph_append g u e) x = (if x = u then graph_get g u @ [e] else graph_get g x)"
  by (induction g u e rule: graph_append.induct) (auto simp: graph_get_def)

lemma hav_a_sym: "hav_a lat2 lon2 lat1 lon1 = hav_a lat1 lon1 lat2 lon2"
proof -
  have s: "(sin (- x))\<^sup>2 = (sin x)\<^sup>2" for x :: real by simp
  have "radians (lat1 - lat2) / 2 = - (radians (lat2 - lat1) / 2)"
    and "radians (lon1 - lon2) / 2 = - (radians (lon2 - lon1) / 2)"
    by (simp_all add: radians_def field_simps)
  then show ?thesis
    unfolding hav_a_def Let_def by (simp only: s mult.commute mult.left_commute)
qed

lemma haversine_m_sym: "haversine_m lat2 lon2 lat1 lon1 = haversine_m lat1 lon1 lat2 lon2"
  by (simp add: haversine_m_def hav_a_sym)

lemma weight_ok_sym: "weight_ok nt u v w \<Longrightarrow> weight_ok nt v u w"
  unfolding weight_ok_def using haversine_m_sym by fastforce

lemma edge_ok_step:
  assumes "edge_ok nt g" "map_of nt u = Some (lat1, lon1)" "map_of nt v = Some (lat2, lon2)"
  shows "edge_ok nt (graph_append (graph_append g u (v, haversine_m lat1 lon1 lat2 lon2)) v
            (u, haversine_m lat1 lon1 lat2 lon2))"
proof -
  have a: "weight_ok nt u v (haversine_m lat1 lon1 lat2 lon2)"
    using assms(2,3) by (simp add: weight_ok_def)
  have b: "weight_ok nt v u (haversine_m lat1 lon1 lat2 lon2)"
    by (rule weight_ok_sym [OF a])
  show ?thesis
    using assms(1) a b unfolding edge_ok_def graph_get_append
    by (auto split: if_splits)
qed

lemma build_graph_way_edge_ok:
  "edge_ok nt (fst s) \<Longrightarrow> build_graph_way nt c ids s = Inr s' \<Longrightarrow> edge_ok nt (fst s')"
proof (induction nt c ids s rule: build_graph_way.induct)
  case (1 nt c u v rest g et)
  then show ?case
    by (auto simp: Let_def edge_ok_step split: option.splits)
qed auto

lemma build_graph_ways_edge_ok:
  "edge_ok nt (fst s) \<Longrightarrow> build_graph_ways nt ws s = Inr s' \<Longrightarrow> edge_ok nt (fst s')"
  by (induction ws arbitrary: s) (auto split: sum.splits dest: build_graph_way_edge_ok)

lemma build_graph_edge_ok:
  assumes "build_graph nt ways = Inr (g, et)"
  shows "edge_ok nt g"
proof -
  have "edge_ok nt (fst ([], Map.empty :: edge_types))"
    by (simp add: edge_ok_def graph_get_def)
  from build_graph_ways_edge_ok [OF this] assms show ?thesis
    unfolding build_graph_def by fastforce
qed

lemma build_graph_two_nodes:
  "build_graph [(1, (0, 0)), (2, (0, 1))]
     [\<lparr>nodes = [1, 2], highway = Some ''footway'', category = Some ''foot_path''\<rparr>]
   = Inr ([(1, [(2, haversine_m 0 0 0 1)]), (2, [(1, haversine_m 0 0 0 1)])],
          [{1, 2} \<mapsto> ''foot_path''])"
  by (simp add: build_graph_def way_category_def rank_update_def Let_def)

text \<open>
  Claim C1. In every graph returned by \<^verbatim>\<open>_build_graph\<close>, an entry \<open>(v, w)\<close> in the
  adjacency list of \<open>u\<close> carries the haversine distance between the coordinates of \<open>u\<close>
  and \<open>v\<close>, and it is there exactly when \<open>(u, w)\<close> is in the adjacency list of \<open>v\<close>.
\<close>

theorem build_graph_weight_symmetric:
  assumes "build_graph nt ways = Inr (g, et)"
  shows "((v, w) \<in> set (graph_get g u) \<longleftrightarrow> (u, w) \<in> set (graph_get g v))
       \<and> ((v, w) \<in> set (graph_get g u) \<longrightarrow>
            (\<exists>lat1 lon1 lat2 lon2.
               map_of nt u = Some (lat1, lon1) \<and> map_of nt v = Some (lat2, lon2)
               \<and> w = haversine_m lat1 lon1 lat2 lon2))"
  using build_graph_edge_ok [OF assms] unfolding edge_ok_def weight_ok_def by blast

theorem build_graph_weight_symmetric_witness:
  "(2, haversine_m 0 0 0 1)
      \<in> set (graph_get [(1, [(2, haversine_m 0 0 0 1)]), (2, [(1, haversine_m 0 0 0 1)])] 1)
   \<and> (1, haversine_m 0 0 0 1)
      \<in> set (graph_get [(1, [(2, haversine_m 0 0 0 1)]), (2, [(1, haversine_m 0 0 0 1)])] 2)
   \<and> map_of [(1, (0, 0)), (2, (0, 1 :: real))] (1 :: int) = Some (0 :: real, 0)"
  using build_graph_weight_symmetric [OF build_graph_two_nodes, of 2 "haversine_m 0 0 0 1" 1]
  by (simp add: graph_get_def)

subsection \<open>Order independence of the edge-category map\<close>





lemma build_graph_way_succeeds:
  "(\<exists>s'. build_graph_way nt c ids s = Inr s') \<longleftrightarrow> way_ok nt ids"
proof (induction nt c ids s rule: build_graph_way.induct)
  case (1 nt c u v rest g et)
  show ?case
  proof (cases "map_of nt u = None \<or> map_of nt v = None")
    case True
    then show ?thesis by (auto simp: way_ok_def split: option.splits)
  next
    case False
    then obtain lat1 lon1 lat2 lon2 where
      c: "map_of nt u = Some (lat1, lon1)" "map_of nt v = Some (lat2, lon2)" by auto
    show ?thesis
      using 1 [OF c(1) refl c(2) refl refl refl refl] c
      by (cases rest) (auto simp: way_ok_def Let_def)
  qed
qed (auto simp: way_ok_def)



lemma build_graph_ways_succeeds:
  "(\<exists>s'. build_graph_ways nt ws s = Inr s') \<longleftrightarrow> (\<forall>w \<in> set ws. way_ok nt (nodes w))"
proof (induction ws arbitrary: s)
  case Nil
  then show ?case by simp
next
  case (Cons w ws)
  show ?case
  proof (cases "build_graph_way nt (way_category w) (nodes w) s")
    case (Inl e)
    then have "\<not> way_ok nt (nodes w)"
      using build_graph_way_succeeds [of nt "way_category w" "nodes w" s] by simp
    with Inl show ?thesis by simp
  next
    case (Inr s1)
    then have "way_ok nt (nodes w)"
      using build_graph_way_succeeds [of nt "way_category w" "nodes w" s] by auto
    with Inr Cons.IH [of s1] show ?thesis by simp
  qed
qed





subsection \<open>When \<^verbatim>\<open>_build_graph\<close> returns\<close>




lemma fetch_way_ok: "fetch_way nt el = Some w \<Longrightarrow> way_ok nt (nodes w)"
  unfolding fetch_way_def Let_def way_ok_def
  by (auto split: if_splits option.splits)

lemma fetch_ways_ok: "w \<in> set (fetch_ways nt els) \<Longrightarrow> way_ok nt (nodes w)"
  by (induction els) (auto split: option.splits dest: fetch_way_ok)

lemma build_graph_fetched_returns: "\<exists>g et. build_graph nt (fetch_ways nt els) = Inr (g, et)"
  using build_graph_ways_succeeds [of nt "fetch_ways nt els" "([], Map.empty)"] fetch_ways_ok
  unfolding build_graph_def by auto





subsection \<open>The hybrid builder against \<^verbatim>\<open>_build_graph\<close>\<close>

text \<open>With pedestrian weight 1.0 and no highway ways the two builders make the same graph.\<close>

lemma hybrid_ped_way_graph:
  "build_graph_way nt c ids s = Inr s' \<Longrightarrow> fst (hybrid_ped_way nt 1 c ids (fst s, et2)) = fst s'"
proof (induction nt c ids s arbitrary: et2 rule: build_graph_way.induct)
  case (1 nt c u v rest g et)
  then show ?case
    by (auto simp: Let_def split: option.splits)
qed auto

lemma hybrid_ped_ways_graph:
  "build_graph_ways nt ws s = Inr s' \<Longrightarrow>
   fst (fold (\<lambda>w. hybrid_ped_way nt 1 (way_category w) (nodes w)) ws (fst s, et2)) = fst s'"
proof (induction ws arbitrary: s et2)
  case Nil
  then show ?case by simp
next
  case (Cons w ws)
  then obtain s1 where s1: "build_graph_way nt (way_category w) (nodes w) s = Inr s1"
    "build_graph_ways nt ws s1 = Inr s'"
    by (auto split: sum.splits)
  obtain g1 e1 where h: "hybrid_ped_way nt 1 (way_category w) (nodes w) (fst s, et2) = (g1, e1)"
    by (cases "hybrid_ped_way nt 1 (way_category w) (nodes w) (fst s, et2)")
  with hybrid_ped_way_graph [OF s1(1), of et2] have "g1 = fst s1" by simp
  with Cons.IH [OF s1(2), of e1] h show ?case by simp
qed

lemma build_hybrid_graph_same_graph:
  assumes "build_graph nt ws = Inr (g, et)"
  shows "fst (build_hybrid_graph nt ws [] 1 hw) = g"
  using hybrid_ped_ways_graph [of nt ws "([], Map.empty)" "(g, et)" Map.empty] assms
  by (simp add: build_graph_def build_hybrid_graph_def)

text \<open>
  Claim C5. The first loop of \<^verbatim>\<open>_build_hybrid_graph\<close> writes \<^verbatim>\<open>edge_types[ekey] = category\<close>
  unconditionally, so the last way wins where \<^verbatim>\<open>_build_graph\<close> keeps the higher rank: on
  a steps way followed by a path way over the same node pair the graphs agree and the
  category maps differ.
\<close>

theorem build_hybrid_graph_last_category_wins:
  "edge_types_of (build_graph nt2 [w_steps, w_path]) = Some [{1, 2} \<mapsto> ''steps'']
   \<and> snd (build_hybrid_graph nt2 [w_steps, w_path] [] 1 3) = [{1, 2} \<mapsto> ''path'']
   \<and> (\<exists>et. build_graph nt2 [w_steps, w_path]
          = Inr (fst (build_hybrid_graph nt2 [w_steps, w_path] [] 1 3), et))"
  by (simp add: edge_types_of_def build_graph_def build_hybrid_graph_def nt2_def w_steps_def
      w_path_def way_category_def rank_update_def Let_def type_rank_def insert_commute)

section \<open>The nearest-node resolver\<close>

lemma nearest_node_loop_inv:
  "best_inv p S m best \<Longrightarrow>
   best_inv p (S \<union> candidates nt g) m (nearest_node_loop p nt g m best)"
proof (induction p nt g m best arbitrary: S rule: nearest_node_loop.induct)
  case (1 p g m best)
  then show ?case by (simp add: candidates_def)
next
  case (2 p nid lat lng rest g m best_id best_d)
  let ?d = "haversine_m (fst p) (snd p) lat lng"
  have split: "S \<union> candidates ((nid, (lat, lng)) # rest) g
      = (S \<union> (if map_of g nid = None then {} else {(nid, (lat, lng))})) \<union> candidates rest g"
    by (auto simp: candidates_def map_of_eq_None_iff)
  show ?case
  proof (cases "map_of g nid = None")
    case True
    with 2 split show ?thesis by simp
  next
    case False
    let ?c = "(case best_d of None \<Rightarrow> True | Some b \<Rightarrow> ?d < b) \<and> ?d \<le> m"
    let ?S = "S \<union> {(nid, (lat, lng))}"
    have eq: "S \<union> candidates ((nid, (lat, lng)) # rest) g = ?S \<union> candidates rest g"
      using split False by simp
    show ?thesis
    proof (cases ?c)
      case True
      have "best_inv p ?S m (Some nid, Some ?d)"
        using "2.prems" True unfolding best_inv_def point_dist_def
        by (auto split: option.splits)
      from "2.IH"(2) [OF False refl True this] False True show ?thesis
        unfolding eq by (auto simp: Let_def)
    next
      case c: False
      have "best_inv p ?S m (best_id, best_d)"
        using "2.prems" c unfolding best_inv_def point_dist_def
        by (auto split: option.splits)
      from "2.IH"(3) [OF False refl c this] False c show ?thesis
        unfolding eq by (auto simp: Let_def)
    qed
  qed
qed

text \<open>
  Claim C8. A node returned by \<^verbatim>\<open>_nearest_node\<close> is a key of the graph, lies within
  \<open>max_distance_m\<close> of the point and is at minimal distance among the entries of the node
  table that are keys of the graph; the result is none exactly when no such entry lies
  within \<open>max_distance_m\<close>.
\<close>

theorem nearest_node_min:
  "(nearest_node p nt g m = Some n \<longrightarrow>
      n \<in> fst ` set g \<and>
      (\<exists>c. (n, c) \<in> set nt \<and> point_dist p c \<le> m \<and>
           (\<forall>n' c'. (n', c') \<in> set nt \<and> n' \<in> fst ` set g \<longrightarrow> point_dist p c \<le> point_dist p c')))
   \<and> (nearest_node p nt g m = None \<longleftrightarrow>
      (\<forall>n' c'. (n', c') \<in> set nt \<and> n' \<in> fst ` set g \<longrightarrow> \<not> point_dist p c' \<le> m))"
proof -
  have "best_inv p ({} \<union> candidates nt g) m (nearest_node_loop p nt g m (None, None))"
    by (rule nearest_node_loop_inv) (simp add: best_inv_def)
  then show ?thesis
    unfolding nearest_node_def best_inv_def candidates_def
    by (cases "nearest_node_loop p nt g m (None, None)") (auto split: option.splits; blast)
qed

lemma haversine_m_zero: "haversine_m 0 0 0 0 = 0"
  by (simp add: haversine_m_def hav_a_def radians_def atan2_def)

theorem nearest_node_min_witness:
  "nearest_node (0, 0) [(1, (0, 0)), (2, (0, 0))] [(2, [])] 200 = Some 2
   \<and> nearest_node (0, 0) [(1, (0, 0)), (2, (0, 0))] [(2, [])] 200 \<noteq> None
   \<and> (2 :: int) \<in> fst ` set [(2 :: int, [] :: adjacency)]
   \<and> (\<exists>c. (2, c) \<in> set [(1, (0, 0)), (2 :: int, (0 :: real, 0 :: real))]
          \<and> point_dist (0, 0) c \<le> 200)"
  using nearest_node_min [of "(0, 0)" "[(1, (0, 0)), (2, (0, 0))]" "[(2, [])]" 200 2]
  by (simp add: nearest_node_def haversine_m_zero point_dist_def)

section \<open>The way classifier\<close>

text \<open>
  Claim C7, as the specification states it: a \<^verbatim>\<open>footway=crossing\<close> way with no marked or
  controlled \<^verbatim>\<open>crossing\<close> subtype is classified as a dedicated footway. The classifier of
  \<^verbatim>\<open>_fetch_pedestrian_ways\<close> leaves such a way out.
\<close>

theorem footway_crossing_unmarked_excluded:
  "pedestrian_category [''highway'' \<mapsto> ''footway'', ''footway'' \<mapsto> ''crossing''] = None"
  by (simp add: pedestrian_category_def tag_get_def)

text \<open>
  Claim C7, amended. A \<^verbatim>\<open>highway=footway\<close> way carrying \<^verbatim>\<open>footway=crossing\<close> is left out
  whatever its \<^verbatim>\<open>crossing\<close> tag is (\<open>x\<close> ranges over every value of the tag and its
  absence); a \<^verbatim>\<open>highway=footway\<close> way whose \<^verbatim>\<open>footway\<close> tag is neither \<^verbatim>\<open>sidewalk\<close> nor
  \<^verbatim>\<open>crossing\<close> is a \<^verbatim>\<open>foot_path\<close>.
\<close>

theorem footway_crossing_always_excluded:
  assumes "tag_get tags ''highway'' = ''footway''"
  shows "(tag_get tags ''footway'' = ''crossing''
            \<longrightarrow> pedestrian_category (tags(''crossing'' := x)) = None)
       \<and> (tag_get tags ''footway'' \<noteq> ''sidewalk'' \<and> tag_get tags ''footway'' \<noteq> ''crossing''
            \<longrightarrow> pedestrian_category (tags(''crossing'' := x)) = Some ''foot_path'')"
  using assms by (simp add: pedestrian_category_def tag_get_def)

theorem footway_crossing_always_excluded_witness:
  "tag_get [''highway'' \<mapsto> ''footway'', ''footway'' \<mapsto> ''crossing''] ''highway'' = ''footway''
   \<and> tag_get [''highway'' \<mapsto> ''footway'', ''footway'' \<mapsto> ''crossing''] ''footway'' = ''crossing''
   \<and> pedestrian_category
       [''highway'' \<mapsto> ''footway'', ''footway'' \<mapsto> ''crossing'', ''crossing'' \<mapsto> ''marked'']
       = None
   \<and> pedestrian_category
       ([''highway'' \<mapsto> ''footway'', ''footway'' \<mapsto> ''crossing''](''crossing'' := None))
       = None
   \<and> pedestrian_category [''highway'' \<mapsto> ''footway'', ''crossing'' \<mapsto> ''marked'']
       = Some ''foot_path''"
  using
    footway_crossing_always_excluded
      [of "[''highway'' \<mapsto> ''footway'', ''footway'' \<mapsto> ''crossing'']" "Some ''marked''"]
    footway_crossing_always_excluded
      [of "[''highway'' \<mapsto> ''footway'', ''footway'' \<mapsto> ''crossing'']" None]
    footway_crossing_always_excluded [of "[''highway'' \<mapsto> ''footway'']" "Some ''marked''"]
  by (simp add: tag_get_def)


section \<open>The shortest-path search\<close>

subsection \<open>One step of the loop\<close>

lemma dijkstra_step_Inl:
  assumes "dijkstra_step g goal s = Inl r"
  shows "(heap s = [] \<and> r = s)
       \<or> (\<exists>d. (d, goal) \<in> set (heap s) \<and> goal \<notin> visited s
              \<and> r = s\<lparr>heap := remove1 (d, goal) (heap s), visited := insert goal (visited s)\<rparr>)"
proof (cases "heap s")
  case Nil
  with assms show ?thesis by (simp add: dijkstra_step_def)
next
  case (Cons x xs)
  obtain d u where du: "heap_min x xs = (d, u)" by (cases "heap_min x xs")
  have m: "(d, u) \<in> set (heap s)" using heap_min_in [of x xs] Cons du by simp
  from assms Cons du m show ?thesis
    by (auto simp: dijkstra_step_def Let_def split: if_splits)
qed

lemma tuple_less_trans_neg:
  "\<not> tuple_less a b \<Longrightarrow> \<not> tuple_less b c \<Longrightarrow> \<not> tuple_less a c"
  unfolding tuple_less_def by auto

lemma heap_min_least: "y \<in> set (m # xs) \<Longrightarrow> \<not> tuple_less y (heap_min m xs)"
proof (induction xs arbitrary: m y)
  case Nil
  then show ?case by (simp add: tuple_less_def)
next
  case (Cons x xs)
  let ?m = "if tuple_less x m then x else m"
  have top: "\<not> tuple_less ?m (heap_min ?m xs)" by (rule Cons.IH) simp
  show ?case
  proof (cases "y \<in> set (?m # xs)")
    case True
    then show ?thesis using Cons.IH [of y ?m] by simp
  next
    case False
    with Cons.prems have "\<not> tuple_less y ?m"
      by (auto simp: tuple_less_def split: if_splits)
    from tuple_less_trans_neg [OF this top] show ?thesis by simp
  qed
qed

lemma dijkstra_step_Inr:
  assumes "dijkstra_step g goal s = Inr s'"
  shows "\<exists>d u. (d, u) \<in> set (heap s) \<and> (\<forall>y \<in> set (heap s). \<not> tuple_less y (d, u))
      \<and> ((u \<in> visited s \<and> s' = s\<lparr>heap := remove1 (d, u) (heap s)\<rparr>)
        \<or> (u \<notin> visited s \<and> u \<noteq> goal
            \<and> s' = relax d u (graph_get g u)
                 (s\<lparr>heap := remove1 (d, u) (heap s), visited := insert u (visited s)\<rparr>)))"
proof (cases "heap s")
  case Nil
  with assms show ?thesis by (simp add: dijkstra_step_def)
next
  case (Cons x xs)
  obtain d u where du: "heap_min x xs = (d, u)" by (cases "heap_min x xs")
  have m: "(d, u) \<in> set (heap s)" using heap_min_in [of x xs] Cons du by simp
  have l: "\<forall>y \<in> set (heap s). \<not> tuple_less y (d, u)"
    using heap_min_least [of _ x xs] Cons du by simp
  have "(u \<in> visited s \<and> s' = s\<lparr>heap := remove1 (d, u) (heap s)\<rparr>)
        \<or> (u \<notin> visited s \<and> u \<noteq> goal
            \<and> s' = relax d u (graph_get g u)
                 (s\<lparr>heap := remove1 (d, u) (heap s), visited := insert u (visited s)\<rparr>))"
    using assms Cons du by (auto simp: dijkstra_step_def Let_def split: if_splits)
  with m l show ?thesis by blast
qed

lemma dijkstra_loop_rule:
  assumes "I s" and "\<forall>s s'. I s \<longrightarrow> dijkstra_step g goal s = Inr s' \<longrightarrow> I s'"
  shows "\<exists>s1. I s1 \<and> dijkstra_step g goal s1 = Inl (dijkstra_loop g goal s)"
  using assms
proof (induction g goal s rule: dijkstra_loop.induct)
  case (1 g goal s)
  show ?case
  proof (cases "dijkstra_step g goal s")
    case (Inl r)
    then have "dijkstra_loop g goal s = r" by (subst dijkstra_loop.simps) simp
    with Inl 1(2) show ?thesis by auto
  next
    case (Inr s')
    then have e: "dijkstra_loop g goal s = dijkstra_loop g goal s'"
      by (subst dijkstra_loop.simps) simp
    have "I s'" using "1.prems" Inr by blast
    from "1.IH" [OF Inr this "1.prems"(2)] e show ?thesis by simp
  qed
qed

subsection \<open>Effect of relax\<close>

lemma relax_dom_eq:
  "dom (prev_m s) = dom (dist_m s) \<Longrightarrow>
   dom (prev_m (relax d u es s)) = dom (dist_m (relax d u es s))"
  by (rule relax_rule [where P = "\<lambda>t. dom (prev_m t) = dom (dist_m t)"])
    (auto simp: relax_edge_def Let_def)

lemma relax_dom_dist:
  "dom (dist_m (relax d u es s)) = dom (dist_m s) \<union> fst ` set es"
  unfolding relax_def
proof (induction es arbitrary: s)
  case Nil
  show ?case by simp
next
  case (Cons e es)
  have "dom (dist_m (relax_edge d u e s)) = insert (fst e) (dom (dist_m s))"
    by (auto simp: relax_edge_def Let_def split: option.splits if_splits)
  with Cons [of "relax_edge d u e s"] show ?case by auto
qed

lemma relax_prev_cases:
  "prev_m (relax d u es s) v = prev_m s v
   \<or> (prev_m (relax d u es s) v = Some (Some u) \<and> v \<in> fst ` set es)"
  by (rule relax_rule [where P = "\<lambda>t. prev_m t v = prev_m s v
        \<or> (prev_m t v = Some (Some u) \<and> v \<in> fst ` set es)"])
    (auto simp: relax_edge_def Let_def)

lemma relax_heap_mono: "set (heap s) \<subseteq> set (heap (relax d u es s))"
  by (rule relax_rule [where P = "\<lambda>t. set (heap s) \<subseteq> set (heap t)"])
    (auto simp: relax_edge_def Let_def)

lemma relax_new_in_heap:
  "v \<in> dom (dist_m (relax d u es s)) \<Longrightarrow> v \<notin> dom (dist_m s) \<Longrightarrow>
   v \<in> snd ` set (heap (relax d u es s))"
proof -
  have "\<forall>v \<in> dom (dist_m (relax d u es s)) - dom (dist_m s). v \<in> snd ` set (heap (relax d u es s))"
    by (rule relax_rule [where P = "\<lambda>t. \<forall>v \<in> dom (dist_m t) - dom (dist_m s). v \<in> snd ` set (heap t)"])
      (auto simp: relax_edge_def Let_def split: if_splits)
  then show "v \<in> dom (dist_m (relax d u es s)) \<Longrightarrow> v \<notin> dom (dist_m s) \<Longrightarrow>
   v \<in> snd ` set (heap (relax d u es s))" by blast
qed


subsection \<open>The structural invariant\<close>

lemma inv_A_I:
  assumes "dom (prev_m s) = dom (dist_m s)" "start \<in> dom (prev_m s)"
    "\<And>v x. prev_m s v = Some (Some x) \<Longrightarrow> x \<in> visited s \<and> (x, v) \<in> edge_rel g"
    "visited s \<subseteq> dom (prev_m s)"
    "\<And>v. prev_m s v = Some None \<Longrightarrow> v = start"
    "dom (prev_m s) \<subseteq> visited s \<union> snd ` set (heap s)"
    "\<And>x v. x \<in> visited s \<Longrightarrow> (x, v) \<in> edge_rel g \<Longrightarrow> v \<in> dom (prev_m s)"
    "snd ` set (heap s) \<subseteq> dom (prev_m s)"
    "\<And>v. v \<in> dom (prev_m s) \<Longrightarrow> (start, v) \<in> (edge_rel g)\<^sup>*"
  shows "inv_A g start s"
  unfolding inv_A_def
proof (intro conjI)
  show "\<forall>v u. prev_m s v = Some (Some u) \<longrightarrow> u \<in> visited s \<and> (u, v) \<in> edge_rel g"
    using assms(3) by blast
  show "\<forall>v. prev_m s v = Some None \<longrightarrow> v = start" using assms(5) by blast
  show "\<forall>u\<in>visited s. \<forall>v. (u, v) \<in> edge_rel g \<longrightarrow> v \<in> dom (prev_m s)"
    using assms(7) by blast
  show "\<forall>v\<in>dom (prev_m s). (start, v) \<in> (edge_rel g)\<^sup>*" using assms(9) by blast
qed (rule assms)+

lemma inv_A_D:
  assumes "inv_A g start s"
  shows "dom (prev_m s) = dom (dist_m s)" "start \<in> dom (prev_m s)"
    "\<And>v x. prev_m s v = Some (Some x) \<Longrightarrow> x \<in> visited s \<and> (x, v) \<in> edge_rel g"
    "visited s \<subseteq> dom (prev_m s)"
    "\<And>v. prev_m s v = Some None \<Longrightarrow> v = start"
    "dom (prev_m s) \<subseteq> visited s \<union> snd ` set (heap s)"
    "\<And>x v. x \<in> visited s \<Longrightarrow> (x, v) \<in> edge_rel g \<Longrightarrow> v \<in> dom (prev_m s)"
    "snd ` set (heap s) \<subseteq> dom (prev_m s)"
    "\<And>v. v \<in> dom (prev_m s) \<Longrightarrow> (start, v) \<in> (edge_rel g)\<^sup>*"
proof -
  note c = assms [unfolded inv_A_def]
  show "dom (prev_m s) = dom (dist_m s)" using c by (elim conjE)
  show "start \<in> dom (prev_m s)" using c by (elim conjE)
  have "\<forall>v u. prev_m s v = Some (Some u) \<longrightarrow> u \<in> visited s \<and> (u, v) \<in> edge_rel g"
    using c by (elim conjE)
  then show "\<And>v x. prev_m s v = Some (Some x) \<Longrightarrow> x \<in> visited s \<and> (x, v) \<in> edge_rel g"
    by blast
  show "visited s \<subseteq> dom (prev_m s)" using c by (elim conjE)
  have "\<forall>v. prev_m s v = Some None \<longrightarrow> v = start" using c by (elim conjE)
  then show "\<And>v. prev_m s v = Some None \<Longrightarrow> v = start" by blast
  show "dom (prev_m s) \<subseteq> visited s \<union> snd ` set (heap s)" using c by (elim conjE)
  have "\<forall>u\<in>visited s. \<forall>v. (u, v) \<in> edge_rel g \<longrightarrow> v \<in> dom (prev_m s)"
    using c by (elim conjE)
  then show "\<And>x v. x \<in> visited s \<Longrightarrow> (x, v) \<in> edge_rel g \<Longrightarrow> v \<in> dom (prev_m s)"
    by blast
  show "snd ` set (heap s) \<subseteq> dom (prev_m s)" using c by (elim conjE)
  have "\<forall>v\<in>dom (prev_m s). (start, v) \<in> (edge_rel g)\<^sup>*" using c by (elim conjE)
  then show "\<And>v. v \<in> dom (prev_m s) \<Longrightarrow> (start, v) \<in> (edge_rel g)\<^sup>*" by blast
qed

lemma inv_A_init: "inv_A g start (init_state start)"
  by (rule inv_A_I) (auto simp: init_state_def split: if_splits)

lemma remove1_nodes: "snd ` set h \<subseteq> insert u (snd ` set (remove1 (d, u) h))"
proof
  fix x assume "x \<in> snd ` set h"
  then obtain k where k: "(k, x) \<in> set h" by force
  show "x \<in> insert u (snd ` set (remove1 (d, u) h))"
  proof (cases "x = u")
    case False
    then have "(k, x) \<in> set (remove1 (d, u) h)" using k by simp
    then show ?thesis by force
  qed simp
qed

lemma inv_A_skip:
  assumes "inv_A g start s" "u \<in> visited s"
  shows "inv_A g start (s\<lparr>heap := remove1 (d, u) (heap s)\<rparr>)"
proof -
  note i = inv_A_D [OF assms(1)]
  have a: "snd ` set (heap s) \<subseteq> insert u (snd ` set (remove1 (d, u) (heap s)))"
    by (rule remove1_nodes)
  have b: "set (remove1 (d, u) (heap s)) \<subseteq> set (heap s)" by (rule set_remove1_subset)
  have c6: "dom (prev_m s) \<subseteq> visited s \<union> snd ` set (remove1 (d, u) (heap s))"
    using i(6) a assms(2) by blast
  have c8: "snd ` set (remove1 (d, u) (heap s)) \<subseteq> dom (prev_m s)"
    using i(8) b by blast
  show ?thesis
  proof (rule inv_A_I)
    show "dom (prev_m (s\<lparr>heap := remove1 (d, u) (heap s)\<rparr>))
        \<subseteq> visited (s\<lparr>heap := remove1 (d, u) (heap s)\<rparr>)
          \<union> snd ` set (heap (s\<lparr>heap := remove1 (d, u) (heap s)\<rparr>))"
      using c6 by simp
    show "snd ` set (heap (s\<lparr>heap := remove1 (d, u) (heap s)\<rparr>))
        \<subseteq> dom (prev_m (s\<lparr>heap := remove1 (d, u) (heap s)\<rparr>))"
      using c8 by simp
  qed (use i in simp_all)
qed

lemma inv_A_visit:
  assumes inv: "inv_A g start s" and m: "(d, u) \<in> set (heap s)"
  shows "inv_A g start (relax d u (graph_get g u)
           (s\<lparr>heap := remove1 (d, u) (heap s), visited := insert u (visited s)\<rparr>))"
proof -
  let ?es = "graph_get g u"
  let ?s2 = "s\<lparr>heap := remove1 (d, u) (heap s), visited := insert u (visited s)\<rparr>"
  let ?t = "relax d u ?es ?s2"
  note i = inv_A_D [OF inv]
  have u_dom: "u \<in> dom (prev_m s)" using m i(8) by force
  have nb: "v \<in> fst ` set ?es \<longleftrightarrow> (u, v) \<in> edge_rel g" for v by (simp add: edge_rel_def)
  have vis: "x \<in> visited ?t \<longleftrightarrow> x = u \<or> x \<in> visited s" for x by (simp add: relax_visited)
  have c1: "dom (prev_m ?t) = dom (dist_m ?t)"
    by (rule relax_dom_eq) (simp add: i(1))
  have dd: "dom (dist_m ?t) = dom (dist_m s) \<union> fst ` set ?es"
    using relax_dom_dist [of d u ?es ?s2] by simp
  have dp: "v \<in> dom (prev_m ?t) \<longleftrightarrow> v \<in> dom (prev_m s) \<or> (u, v) \<in> edge_rel g" for v
    unfolding c1 dd i(1) using nb [of v] by simp
  have pc: "prev_m ?t v = prev_m s v \<or> (prev_m ?t v = Some (Some u) \<and> (u, v) \<in> edge_rel g)" for v
    using relax_prev_cases [of d u ?es ?s2 v] nb [of v] by auto
  have h2: "x \<in> snd ` set (heap s) \<Longrightarrow> x = u \<or> x \<in> snd ` set (heap ?s2)" for x
    using remove1_nodes [of "heap s" u d] by auto
  have hm: "x \<in> snd ` set (heap ?s2) \<Longrightarrow> x \<in> snd ` set (heap ?t)" for x
    using relax_heap_mono [of ?s2 d u ?es] by auto
  have hn: "x \<in> snd ` set (heap ?t) \<Longrightarrow> x \<in> snd ` set (heap s) \<or> (u, x) \<in> edge_rel g" for x
  proof -
    assume "x \<in> snd ` set (heap ?t)"
    then have "x \<in> snd ` set (heap ?s2) \<or> x \<in> fst ` set ?es"
      using relax_heap_nodes [of d u ?es ?s2] by blast
    moreover have "set (heap ?s2) \<subseteq> set (heap s)"
      using set_remove1_subset [of "(d, u)" "heap s"] by simp
    ultimately show ?thesis using nb [of x] by blast
  qed
  show ?thesis
  proof (rule inv_A_I)
    show "dom (prev_m ?t) = dom (dist_m ?t)" by (rule c1)
    show "start \<in> dom (prev_m ?t)" using dp [of start] i(2) by simp
    show "x \<in> visited ?t \<and> (x, v) \<in> edge_rel g" if "prev_m ?t v = Some (Some x)" for v x
    proof (cases "prev_m ?t v = prev_m s v")
      case True
      with that i(3) [of v x] vis [of x] show ?thesis by simp
    next
      case False
      with pc [of v] that vis [of x] show ?thesis by simp
    qed
    show "visited ?t \<subseteq> dom (prev_m ?t)"
    proof
      fix x assume "x \<in> visited ?t"
      then have "x = u \<or> x \<in> visited s" using vis [of x] by simp
      then have "x \<in> dom (prev_m s)" using u_dom i(4) by blast
      then show "x \<in> dom (prev_m ?t)" using dp [of x] by simp
    qed
    show "v = start" if "prev_m ?t v = Some None" for v
      using pc [of v] that i(5) [of v] by auto
    show "dom (prev_m ?t) \<subseteq> visited ?t \<union> snd ` set (heap ?t)"
    proof
      fix v assume v: "v \<in> dom (prev_m ?t)"
      show "v \<in> visited ?t \<union> snd ` set (heap ?t)"
      proof (cases "v \<in> dom (prev_m s)")
        case True
        with i(6) have "v \<in> visited s \<or> v \<in> snd ` set (heap s)" by blast
        with h2 [of v] hm [of v] vis [of v] show ?thesis by blast
      next
        case False
        then have "v \<notin> dom (dist_m ?s2)" using i(1) by simp
        moreover have "v \<in> dom (dist_m ?t)" using v c1 by simp
        ultimately have "v \<in> snd ` set (heap ?t)" by (rule relax_new_in_heap [rotated])
        then show ?thesis by blast
      qed
    qed
    show "v \<in> dom (prev_m ?t)" if "x \<in> visited ?t" "(x, v) \<in> edge_rel g" for x v
      using that vis [of x] dp [of v] i(7) [of x v] by auto
    show "snd ` set (heap ?t) \<subseteq> dom (prev_m ?t)"
    proof
      fix x assume "x \<in> snd ` set (heap ?t)"
      from hn [OF this] have "x \<in> dom (prev_m s) \<or> (u, x) \<in> edge_rel g"
        using i(8) by blast
      then show "x \<in> dom (prev_m ?t)" using dp [of x] by simp
    qed
    show "(start, v) \<in> (edge_rel g)\<^sup>*" if "v \<in> dom (prev_m ?t)" for v
    proof -
      from that consider "v \<in> dom (prev_m s)" | "(u, v) \<in> edge_rel g" using dp [of v] by blast
      then show ?thesis
      proof cases
        case 1
        then show ?thesis by (rule i(9))
      next
        case 2
        with i(9) [OF u_dom] show ?thesis by (rule rtrancl_into_rtrancl)
      qed
    qed
  qed
qed

lemma inv_A_step:
  assumes "inv_A g start s" "dijkstra_step g goal s = Inr s'"
  shows "inv_A g start s'"
proof -
  from dijkstra_step_Inr [OF assms(2)] obtain d u where
    m: "(d, u) \<in> set (heap s)" and
    c: "(u \<in> visited s \<and> s' = s\<lparr>heap := remove1 (d, u) (heap s)\<rparr>)
        \<or> (u \<notin> visited s \<and> u \<noteq> goal
            \<and> s' = relax d u (graph_get g u)
                 (s\<lparr>heap := remove1 (d, u) (heap s), visited := insert u (visited s)\<rparr>))"
    by blast
  from c show ?thesis
  proof
    assume "u \<in> visited s \<and> s' = s\<lparr>heap := remove1 (d, u) (heap s)\<rparr>"
    then show ?thesis using inv_A_skip [OF assms(1), of u d] by simp
  next
    assume "u \<notin> visited s \<and> u \<noteq> goal
            \<and> s' = relax d u (graph_get g u)
                 (s\<lparr>heap := remove1 (d, u) (heap s), visited := insert u (visited s)\<rparr>)"
    then show ?thesis using inv_A_visit [OF assms(1) m] by simp
  qed
qed

subsection \<open>The state when the loop is left\<close>

lemma dijkstra_loop_final:
  fixes g start goal
  defines "r \<equiv> dijkstra_loop g goal (init_state start)"
  shows "\<And>v x. prev_m r v = Some (Some x) \<Longrightarrow> x \<in> dom (prev_m r) \<and> (x, v) \<in> edge_rel g"
    and "\<And>v. prev_m r v = Some None \<Longrightarrow> v = start"
    and "\<And>v. v \<in> dom (prev_m r) \<Longrightarrow> (start, v) \<in> (edge_rel g)\<^sup>*"
    and "(start, goal) \<in> (edge_rel g)\<^sup>* \<Longrightarrow> goal \<in> dom (prev_m r)"
    and "start \<in> dom (prev_m r)"
proof -
  have "\<exists>s1. inv_A g start s1 \<and> dijkstra_step g goal s1 = Inl (dijkstra_loop g goal (init_state start))"
    by (rule dijkstra_loop_rule [where I = "inv_A g start"])
      (auto intro: inv_A_init inv_A_step)
  then obtain s1 where inv: "inv_A g start s1" and st: "dijkstra_step g goal s1 = Inl r"
    unfolding r_def by blast
  note i = inv_A_D [OF inv]
  from dijkstra_step_Inl [OF st] have pr: "prev_m r = prev_m s1" by auto
  show "x \<in> dom (prev_m r) \<and> (x, v) \<in> edge_rel g" if "prev_m r v = Some (Some x)" for v x
    using i(3) [of v x] i(4) that unfolding pr by blast
  show "v = start" if "prev_m r v = Some None" for v
    using i(5) [of v] that unfolding pr by simp
  show "(start, v) \<in> (edge_rel g)\<^sup>*" if "v \<in> dom (prev_m r)" for v
    using i(9) [of v] that unfolding pr by simp
  show "start \<in> dom (prev_m r)" using i(2) unfolding pr by simp
  show "goal \<in> dom (prev_m r)" if reach: "(start, goal) \<in> (edge_rel g)\<^sup>*"
  proof -
    from dijkstra_step_Inl [OF st] consider "heap s1 = []"
      | d where "(d, goal) \<in> set (heap s1)" by blast
    then show ?thesis
    proof cases
      case 1
      then have sub: "dom (prev_m s1) \<subseteq> visited s1" using i(6) by simp
      from reach have "goal \<in> dom (prev_m s1)"
      proof (induction rule: rtrancl_induct)
        case base
        show ?case by (rule i(2))
      next
        case (step y z)
        then have "y \<in> visited s1" using sub by blast
        then show ?case using i(7) step.hyps(2) by blast
      qed
      then show ?thesis unfolding pr .
    next
      case 2
      then have "goal \<in> snd ` set (heap s1)" by force
      then show ?thesis using i(8) unfolding pr by blast
    qed
  qed
qed

lemma reconstruct_chain:
  assumes "reconstruct prv cur acc = Some path"
  shows "\<exists>ys. path = acc @ ys \<and> is_chain prv (cur # ys) \<and> chain_end prv (last (cur # ys))"
proof -
  define P where "P = (\<lambda>(prv :: node_id \<rightharpoonup> node_id option) cur acc path.
    \<exists>ys. path = acc @ ys \<and> is_chain prv (cur # ys) \<and> chain_end prv (last (cur # ys)))"
  have "P prv cur acc path"
  proof (rule reconstruct.raw_induct [where P = P, OF _ assms])
    fix rec :: "(node_id \<rightharpoonup> node_id option) \<Rightarrow> node_id \<Rightarrow> node_id list \<Rightarrow> node_id list option"
    fix prv cur acc path
    assume IH: "\<And>a b c y. rec a b c = Some y \<Longrightarrow> P a b c y"
      and body: "(case prv cur of None \<Rightarrow> Some acc | Some None \<Rightarrow> Some acc
                  | Some (Some p) \<Rightarrow> rec prv p (acc @ [p])) = Some path"
    show "P prv cur acc path"
    proof (cases "\<exists>p. prv cur = Some (Some p)")
      case False
      then have "path = acc" using body by (auto split: option.splits)
      with False show ?thesis unfolding P_def by (auto simp: chain_end_def)
    next
      case True
      then obtain p where p: "prv cur = Some (Some p)" by blast
      with body have "rec prv p (acc @ [p]) = Some path" by simp
      from IH [OF this] obtain ys where
        ys: "path = (acc @ [p]) @ ys" "is_chain prv (p # ys)" "chain_end prv (last (p # ys))"
        unfolding P_def by blast
      have "path = acc @ (p # ys)" using ys(1) by simp
      moreover have "is_chain prv (cur # p # ys)" using p ys(2) by simp
      moreover have "chain_end prv (last (cur # p # ys))" using ys(3) by simp
      ultimately show ?thesis unfolding P_def by blast
    qed
  qed
  then show ?thesis unfolding P_def .
qed

lemma chain_reconstruct:
  "is_chain prv (cur # ys) \<Longrightarrow> chain_end prv (last (cur # ys)) \<Longrightarrow>
   reconstruct prv cur acc = Some (acc @ ys)"
proof (induction ys arbitrary: cur acc)
  case Nil
  then show ?case
    by (subst reconstruct.simps) (auto simp: chain_end_def split: option.splits)
next
  case (Cons y ys)
  then have "prv cur = Some (Some y)" "is_chain prv (y # ys)" "chain_end prv (last (y # ys))"
    by simp_all
  with Cons.IH [of y "acc @ [y]"] show ?case
    by (subst reconstruct.simps) simp
qed

lemma chain_unique:
  "is_chain prv (x # a) \<Longrightarrow> chain_end prv (last (x # a)) \<Longrightarrow>
   is_chain prv (x # b) \<Longrightarrow> chain_end prv (last (x # b)) \<Longrightarrow> a = b"
proof (induction a arbitrary: x b)
  case Nil
  then show ?case by (cases b) (auto simp: chain_end_def)
next
  case (Cons y a)
  then obtain z b' where b: "b = z # b'" by (cases b) (auto simp: chain_end_def)
  with Cons.prems have "z = y" by simp
  with Cons.prems b Cons.IH [of y b'] show ?case by simp
qed

lemma chain_suffix: "is_chain prv (as @ bs) \<Longrightarrow> is_chain prv bs"
proof (induction as)
  case Nil
  then show ?case by simp
next
  case (Cons a as)
  then have "is_chain prv (as @ bs)" by (cases "as @ bs") auto
  with Cons.IH show ?case by simp
qed

lemma chain_distinct:
  "is_chain prv xs \<Longrightarrow> xs \<noteq> [] \<Longrightarrow> chain_end prv (last xs) \<Longrightarrow> distinct xs"
proof (induction xs)
  case Nil
  then show ?case by simp
next
  case (Cons x xs)
  show ?case
  proof (cases "xs = []")
    case True
    then show ?thesis by simp
  next
    case False
    have c: "is_chain prv xs" using chain_suffix [of prv "[x]" xs] Cons.prems(1) by simp
    have e: "chain_end prv (last xs)" using Cons.prems(3) False by simp
    have d: "distinct xs" by (rule Cons.IH [OF c False e])
    have "x \<notin> set xs"
    proof
      assume "x \<in> set xs"
      then obtain as bs where s: "xs = as @ x # bs" by (auto dest: split_list)
      have "is_chain prv (x # bs)" using chain_suffix [of prv as "x # bs"] c s by simp
      moreover have "chain_end prv (last (x # bs))" using e s by simp
      moreover have "chain_end prv (last (x # xs))" using Cons.prems(3) by simp
      ultimately have "xs = bs" using chain_unique [of prv x xs bs] Cons.prems(1) by blast
      with s have "length xs = length as + Suc (length xs)" by (metis length_append length_Cons)
      then show False by simp
    qed
    with d show ?thesis by simp
  qed
qed

lemma chain_nth:
  "is_chain prv xs \<Longrightarrow> Suc i < length xs \<Longrightarrow> prv (xs ! i) = Some (Some (xs ! Suc i))"
proof (induction prv xs arbitrary: i rule: is_chain.induct)
  case (1 prv x y zs)
  then show ?case by (cases i) auto
qed auto

subsection \<open>Returned paths\<close>

lemma chain_last_dom:
  assumes "\<And>v x. prv v = Some (Some x) \<Longrightarrow> x \<in> dom prv"
  shows "is_chain prv (x # ys) \<Longrightarrow> x \<in> dom prv \<Longrightarrow> last (x # ys) \<in> dom prv"
proof (induction ys arbitrary: x)
  case Nil
  then show ?case by simp
next
  case (Cons y ys)
  then have "prv x = Some (Some y)" "is_chain prv (y # ys)" by simp_all
  with assms [of x y] Cons.IH [of y] show ?case by simp
qed

text \<open>What the reconstruction loop of a search returns, when it returns.\<close>

lemma reconstruct_search:
  fixes g start goal
  defines "prv \<equiv> prev_m (dijkstra_loop g goal (init_state start))"
  assumes rc: "reconstruct prv goal [goal] = Some path" and dom: "goal \<in> dom prv"
  shows "hd path = goal" "last path = start" "distinct path" "path \<noteq> []"
    "\<And>i. Suc i < length path \<Longrightarrow> (path ! Suc i, path ! i) \<in> edge_rel g"
proof -
  note f = dijkstra_loop_final [where g = g and goal = goal and start = start, folded prv_def]
  from reconstruct_chain [OF rc] obtain ys where
    ys: "path = goal # ys" "is_chain prv (goal # ys)" "chain_end prv (last (goal # ys))"
    by auto
  show "hd path = goal" "path \<noteq> []" using ys(1) by simp_all
  have "last path \<in> dom prv"
    using chain_last_dom [of prv goal ys] f(1) ys(1,2) dom by blast
  then obtain z where "prv (last path) = Some z" by blast
  with ys(1,3) have "prv (last path) = Some None"
    by (cases z) (auto simp: chain_end_def)
  then show "last path = start" by (rule f(2))
  show "distinct path"
    using chain_distinct [of prv path] ys by simp
  show "(path ! Suc i, path ! i) \<in> edge_rel g" if "Suc i < length path" for i
    using chain_nth [of prv path i] ys(1,2) that f(1) by blast
qed

lemma shortest_path_self: "shortest_path g s s = Some [s]"
  unfolding shortest_path_def
  apply (subst dijkstra_loop.simps)
  apply (simp add: init_state_def dijkstra_step_def)
  apply (subst reconstruct.simps)
  apply simp
  done

lemma shortest_path_Some:
  assumes "shortest_path g start goal = Some p" "p \<noteq> []"
  shows "\<exists>path. reconstruct (prev_m (dijkstra_loop g goal (init_state start))) goal [goal]
            = Some path \<and> p = rev path
          \<and> goal \<in> dom (prev_m (dijkstra_loop g goal (init_state start)))"
proof -
  let ?prv = "prev_m (dijkstra_loop g goal (init_state start))"
  have d: "goal \<in> dom ?prv"
  proof (cases "goal = start")
    case True
    then show ?thesis using dijkstra_loop_final(5) [where g = g and goal = goal and start = start] by simp
  next
    case False
    with assms show ?thesis
      unfolding shortest_path_def Let_def by (auto split: if_splits)
  qed
  then have "\<not> (?prv goal = None \<and> goal \<noteq> start)" by auto
  with assms have "\<exists>path. reconstruct ?prv goal [goal] = Some path \<and> p = rev path"
    unfolding shortest_path_def Let_def
    by (auto split: if_splits option.splits)
  with d show ?thesis by blast
qed

text \<open>
  Claim C3. Every non-empty sequence returned by \<^verbatim>\<open>_shortest_path(graph, s, g)\<close> starts
  at \<open>s\<close>, ends at \<open>g\<close>, repeats no node, and each consecutive pair is an edge of the
  graph: the second node is in the adjacency list of the first.
\<close>

theorem shortest_path_is_path:
  assumes "shortest_path g start goal = Some p" "p \<noteq> []"
  shows "hd p = start \<and> last p = goal \<and> distinct p
       \<and> (\<forall>i. Suc i < length p \<longrightarrow> p ! Suc i \<in> fst ` set (graph_get g (p ! i)))"
proof -
  from shortest_path_Some [OF assms] obtain path where
    rc: "reconstruct (prev_m (dijkstra_loop g goal (init_state start))) goal [goal] = Some path"
    and p: "p = rev path"
    and d: "goal \<in> dom (prev_m (dijkstra_loop g goal (init_state start)))"
    by blast
  note r = reconstruct_search [OF rc d]
  have "hd p = start" using r(2,4) p by (simp add: hd_rev)
  moreover have "last p = goal" using r(1,4) p by (simp add: last_rev)
  moreover have "distinct p" using r(3) p by simp
  moreover have "p ! Suc i \<in> fst ` set (graph_get g (p ! i))" if "Suc i < length p" for i
  proof -
    let ?n = "length path"
    have l: "Suc i < ?n" using that p by simp
    have a: "p ! i = path ! (?n - Suc i)" using l p by (simp add: rev_nth)
    have b: "p ! Suc i = path ! (?n - Suc (Suc i))" using l p by (simp add: rev_nth)
    have c: "Suc (?n - Suc (Suc i)) = ?n - Suc i" using l by simp
    have "Suc (?n - Suc (Suc i)) < ?n" using l by simp
    from r(5) [OF this] have "(path ! (?n - Suc i), path ! (?n - Suc (Suc i))) \<in> edge_rel g"
      unfolding c .
    then show ?thesis unfolding a b edge_rel_def by simp
  qed
  ultimately show ?thesis by blast
qed

text \<open>
  Claim C2. \<^verbatim>\<open>_shortest_path(graph, s, s)\<close> returns \<open>[s]\<close>, and for \<open>s \<noteq> g\<close> the search
  returns the empty sequence exactly when \<open>g\<close> is not reachable from \<open>s\<close> along edges of
  the graph; nothing is assumed about the graph.
\<close>

theorem shortest_path_empty_iff:
  "shortest_path g s s = Some [s]
   \<and> (s \<noteq> t \<longrightarrow> (shortest_path g s t = Some [] \<longleftrightarrow> (s, t) \<notin> (edge_rel g)\<^sup>*))"
proof (intro conjI impI)
  show "shortest_path g s s = Some [s]" by (rule shortest_path_self)
next
  assume ne: "s \<noteq> t"
  let ?prv = "prev_m (dijkstra_loop g t (init_state s))"
  note f = dijkstra_loop_final [where g = g and goal = t and start = s]
  show "shortest_path g s t = Some [] \<longleftrightarrow> (s, t) \<notin> (edge_rel g)\<^sup>*"
  proof
    assume "(s, t) \<notin> (edge_rel g)\<^sup>*"
    then have "t \<notin> dom ?prv" using f(3) [of t] by blast
    then have "?prv t = None" by blast
    with ne show "shortest_path g s t = Some []"
      unfolding shortest_path_def Let_def by simp
  next
    assume e: "shortest_path g s t = Some []"
    show "(s, t) \<notin> (edge_rel g)\<^sup>*"
    proof
      assume "(s, t) \<in> (edge_rel g)\<^sup>*"
      then have d: "t \<in> dom ?prv" by (rule f(4))
      then have n: "\<not> (?prv t = None \<and> t \<noteq> s)" by auto
      from e n obtain path where rc: "reconstruct ?prv t [t] = Some path"
        and c: "last path \<noteq> s \<or> rev path = []"
        unfolding shortest_path_def Let_def
        by (auto split: if_splits option.splits)
      note r = reconstruct_search [OF rc d]
      from c r(2,4) show False by simp
    qed
  qed
qed

lemma shortest_path_g0_1_3: "shortest_path g0 1 3 = Some [1, 2, 3]"
  by (simp add: shortest_path_def dijkstra_loop.simps dijkstra_step_def init_state_def g0_def
      graph_get_def relax_def relax_edge_def tuple_less_def reconstruct.simps Let_def)

lemma shortest_path_g0_1_4: "shortest_path g0 1 4 = Some []"
  by (simp add: shortest_path_def dijkstra_loop.simps dijkstra_step_def init_state_def g0_def
      graph_get_def relax_def relax_edge_def tuple_less_def reconstruct.simps Let_def)

theorem shortest_path_is_path_witness:
  "shortest_path g0 1 3 = Some [1, 2, 3] \<and> [1, 2, 3 :: int] \<noteq> []
   \<and> hd [1, 2, 3 :: int] = 1 \<and> last [1, 2, 3 :: int] = 3 \<and> distinct [1, 2, 3 :: int]
   \<and> 2 \<in> fst ` set (graph_get g0 1) \<and> 3 \<in> fst ` set (graph_get g0 2)"
  using shortest_path_is_path [OF shortest_path_g0_1_3] shortest_path_g0_1_3
  by (simp add: g0_def graph_get_def)

theorem shortest_path_empty_iff_witness:
  "(1 :: int) \<noteq> 4 \<and> shortest_path g0 1 1 = Some [1] \<and> shortest_path g0 1 4 = Some []
   \<and> (1, 4) \<notin> (edge_rel g0)\<^sup>*"
  using shortest_path_empty_iff [of g0 1 4] shortest_path_g0_1_4 by simp


section \<open>The distance found by the search\<close>

subsection \<open>The invariant on non-negative weights\<close>

lemma inv_N_I:
  assumes "(visited s = {} \<and> heap s = [(0, start)] \<and> dist_m s = [start \<mapsto> 0])
        \<or> (start \<in> visited s \<and> dist_m s start = Some 0)"
    "\<And>y v w. y \<in> visited s \<Longrightarrow> (v, w) \<in> set (graph_get g y) \<Longrightarrow>
         \<exists>dy dv. dist_m s y = Some dy \<and> dist_m s v = Some dv \<and> dv \<le> dy + w"
    "\<And>v dv. dist_m s v = Some dv \<Longrightarrow> v \<notin> visited s \<Longrightarrow> (dv, v) \<in> set (heap s)"
    "\<And>y k x. y \<in> visited s \<Longrightarrow> (k, x) \<in> set (heap s) \<Longrightarrow>
         \<exists>dy. dist_m s y = Some dy \<and> dy \<le> k"
    "\<And>k x. (k, x) \<in> set (heap s) \<Longrightarrow> \<exists>dx. dist_m s x = Some dx \<and> dx \<le> k"
  shows "inv_N g start s"
  unfolding inv_N_def
proof (intro conjI)
  show "\<forall>y v w. y \<in> visited s \<and> (v, w) \<in> set (graph_get g y) \<longrightarrow>
         (\<exists>dy dv. dist_m s y = Some dy \<and> dist_m s v = Some dv \<and> dv \<le> dy + w)"
    using assms(2) by blast
  show "\<forall>v dv. dist_m s v = Some dv \<and> v \<notin> visited s \<longrightarrow> (dv, v) \<in> set (heap s)"
    using assms(3) by blast
  show "\<forall>y k x. y \<in> visited s \<and> (k, x) \<in> set (heap s) \<longrightarrow>
         (\<exists>dy. dist_m s y = Some dy \<and> dy \<le> k)"
    using assms(4) by blast
  show "\<forall>k x. (k, x) \<in> set (heap s) \<longrightarrow> (\<exists>dx. dist_m s x = Some dx \<and> dx \<le> k)"
    using assms(5) by blast
qed (rule assms(1))

lemma inv_N_D:
  assumes "inv_N g start s"
  shows "(visited s = {} \<and> heap s = [(0, start)] \<and> dist_m s = [start \<mapsto> 0])
        \<or> (start \<in> visited s \<and> dist_m s start = Some 0)"
    "\<And>y v w. y \<in> visited s \<Longrightarrow> (v, w) \<in> set (graph_get g y) \<Longrightarrow>
         \<exists>dy dv. dist_m s y = Some dy \<and> dist_m s v = Some dv \<and> dv \<le> dy + w"
    "\<And>v dv. dist_m s v = Some dv \<Longrightarrow> v \<notin> visited s \<Longrightarrow> (dv, v) \<in> set (heap s)"
    "\<And>y k x. y \<in> visited s \<Longrightarrow> (k, x) \<in> set (heap s) \<Longrightarrow>
         \<exists>dy. dist_m s y = Some dy \<and> dy \<le> k"
    "\<And>k x. (k, x) \<in> set (heap s) \<Longrightarrow> \<exists>dx. dist_m s x = Some dx \<and> dx \<le> k"
proof -
  note c = assms [unfolded inv_N_def]
  show "(visited s = {} \<and> heap s = [(0, start)] \<and> dist_m s = [start \<mapsto> 0])
        \<or> (start \<in> visited s \<and> dist_m s start = Some 0)"
    using c by (elim conjE)
  have "\<forall>y v w. y \<in> visited s \<and> (v, w) \<in> set (graph_get g y) \<longrightarrow>
         (\<exists>dy dv. dist_m s y = Some dy \<and> dist_m s v = Some dv \<and> dv \<le> dy + w)"
    using c by (elim conjE)
  then show "\<And>y v w. y \<in> visited s \<Longrightarrow> (v, w) \<in> set (graph_get g y) \<Longrightarrow>
         \<exists>dy dv. dist_m s y = Some dy \<and> dist_m s v = Some dv \<and> dv \<le> dy + w"
    by blast
  have "\<forall>v dv. dist_m s v = Some dv \<and> v \<notin> visited s \<longrightarrow> (dv, v) \<in> set (heap s)"
    using c by (elim conjE)
  then show "\<And>v dv. dist_m s v = Some dv \<Longrightarrow> v \<notin> visited s \<Longrightarrow> (dv, v) \<in> set (heap s)"
    by blast
  have "\<forall>y k x. y \<in> visited s \<and> (k, x) \<in> set (heap s) \<longrightarrow>
         (\<exists>dy. dist_m s y = Some dy \<and> dy \<le> k)"
    using c by (elim conjE)
  then show "\<And>y k x. y \<in> visited s \<Longrightarrow> (k, x) \<in> set (heap s) \<Longrightarrow>
         \<exists>dy. dist_m s y = Some dy \<and> dy \<le> k"
    by blast
  have "\<forall>k x. (k, x) \<in> set (heap s) \<longrightarrow> (\<exists>dx. dist_m s x = Some dx \<and> dx \<le> k)"
    using c by (elim conjE)
  then show "\<And>k x. (k, x) \<in> set (heap s) \<Longrightarrow> \<exists>dx. dist_m s x = Some dx \<and> dx \<le> k"
    by blast
qed

subsection \<open>Relaxation and distances\<close>

lemma relax_edge_dist_mono:
  "dist_m s v = Some a \<Longrightarrow> \<exists>b. dist_m (relax_edge d u e s) v = Some b \<and> b \<le> a"
  by (auto simp: relax_edge_def Let_def)

lemma relax_dist_mono:
  "dist_m s v = Some a \<Longrightarrow> \<exists>b. dist_m (relax d u es s) v = Some b \<and> b \<le> a"
proof -
  assume a: "dist_m s v = Some a"
  have "\<exists>b. dist_m (relax d u es s) v = Some b \<and> b \<le> a"
  proof (rule relax_rule [where P = "\<lambda>t. \<exists>b. dist_m t v = Some b \<and> b \<le> a"])
    show "\<exists>b. dist_m s v = Some b \<and> b \<le> a" using a by simp
    show "\<exists>b. dist_m (relax_edge d u e t) v = Some b \<and> b \<le> a"
      if "\<exists>b. dist_m t v = Some b \<and> b \<le> a" for e t
    proof -
      from that obtain b where b: "dist_m t v = Some b" "b \<le> a" by blast
      from relax_edge_dist_mono [OF b(1), of d u e] b(2) show ?thesis by force
    qed
  qed
  then show ?thesis .
qed

lemma relax_dist_edges:
  "(v, w) \<in> set es \<Longrightarrow> \<exists>b. dist_m (relax d u es s) v = Some b \<and> b \<le> d + w"
proof (induction es arbitrary: s)
  case Nil
  then show ?case by simp
next
  case (Cons e es)
  have unf: "relax d u (e # es) s = relax d u es (relax_edge d u e s)"
    by (simp add: relax_def)
  show ?case
  proof (cases "(v, w) = e")
    case True
    have "\<exists>a. dist_m (relax_edge d u e s) v = Some a \<and> a \<le> d + w"
      using True [symmetric] by (auto simp: relax_edge_def Let_def split: option.splits)
    then obtain a where a: "dist_m (relax_edge d u e s) v = Some a" "a \<le> d + w" by blast
    from relax_dist_mono [OF a(1), of d u es] a(2) show ?thesis
      unfolding unf by force
  next
    case False
    with Cons.prems have "(v, w) \<in> set es" by simp
    from Cons.IH [OF this, of "relax_edge d u e s"] show ?thesis unfolding unf .
  qed
qed

lemma relax_dist_fixed:
  assumes "\<forall>(v, w) \<in> set es. 0 \<le> w" "dist_m s y = Some dy" "dy \<le> d"
  shows "dist_m (relax d u es s) y = Some dy"
proof (rule relax_rule [where P = "\<lambda>t. dist_m t y = Some dy"])
  show "dist_m s y = Some dy" by (rule assms(2))
  show "dist_m (relax_edge d u e t) y = Some dy" if "e \<in> set es" "dist_m t y = Some dy" for e t
  proof -
    have "0 \<le> snd e" using assms(1) that(1) by (cases e) auto
    with that(2) assms(3) show ?thesis
      by (auto simp: relax_edge_def Let_def)
  qed
qed

lemma relax_dist_cases:
  "dist_m (relax d u es s) v = Some b \<Longrightarrow>
   dist_m s v = Some b \<or> (b, v) \<in> set (heap (relax d u es s))"
proof -
  have "\<forall>b. dist_m (relax d u es s) v = Some b \<longrightarrow>
          dist_m s v = Some b \<or> (b, v) \<in> set (heap (relax d u es s))"
    by (rule relax_rule [where P = "\<lambda>t. \<forall>b. dist_m t v = Some b \<longrightarrow>
          dist_m s v = Some b \<or> (b, v) \<in> set (heap t)"])
      (auto simp: relax_edge_def Let_def)
  then show "dist_m (relax d u es s) v = Some b \<Longrightarrow>
   dist_m s v = Some b \<or> (b, v) \<in> set (heap (relax d u es s))" by blast
qed

lemma relax_heap_cases:
  "(k, x) \<in> set (heap (relax d u es s)) \<Longrightarrow>
   (k, x) \<in> set (heap s) \<or> (\<exists>w. (x, w) \<in> set es \<and> k = d + w)"
proof -
  have "\<forall>k x. (k, x) \<in> set (heap (relax d u es s)) \<longrightarrow>
   (k, x) \<in> set (heap s) \<or> (\<exists>w. (x, w) \<in> set es \<and> k = d + w)"
    by (rule relax_rule [where P = "\<lambda>t. \<forall>k x. (k, x) \<in> set (heap t) \<longrightarrow>
        (k, x) \<in> set (heap s) \<or> (\<exists>w. (x, w) \<in> set es \<and> k = d + w)"])
      (auto simp: relax_edge_def Let_def)
  then show "(k, x) \<in> set (heap (relax d u es s)) \<Longrightarrow>
   (k, x) \<in> set (heap s) \<or> (\<exists>w. (x, w) \<in> set es \<and> k = d + w)" by blast
qed

lemma relax_heap_dist:
  assumes "\<And>k x. (k, x) \<in> set (heap s) \<Longrightarrow> \<exists>dx. dist_m s x = Some dx \<and> dx \<le> k"
  shows "(k, x) \<in> set (heap (relax d u es s)) \<Longrightarrow>
         \<exists>dx. dist_m (relax d u es s) x = Some dx \<and> dx \<le> k"
proof -
  have "\<forall>k x. (k, x) \<in> set (heap (relax d u es s)) \<longrightarrow>
         (\<exists>dx. dist_m (relax d u es s) x = Some dx \<and> dx \<le> k)"
  proof (rule relax_rule [where P = "\<lambda>t. \<forall>k x. (k, x) \<in> set (heap t) \<longrightarrow>
         (\<exists>dx. dist_m t x = Some dx \<and> dx \<le> k)"])
    show "\<forall>k x. (k, x) \<in> set (heap s) \<longrightarrow> (\<exists>dx. dist_m s x = Some dx \<and> dx \<le> k)"
      using assms by blast
    show "\<forall>k x. (k, x) \<in> set (heap (relax_edge d u e t)) \<longrightarrow>
         (\<exists>dx. dist_m (relax_edge d u e t) x = Some dx \<and> dx \<le> k)"
      if "\<forall>k x. (k, x) \<in> set (heap t) \<longrightarrow> (\<exists>dx. dist_m t x = Some dx \<and> dx \<le> k)" for e t
    proof (intro allI impI)
      fix k x assume m: "(k, x) \<in> set (heap (relax_edge d u e t))"
      show "\<exists>dx. dist_m (relax_edge d u e t) x = Some dx \<and> dx \<le> k"
      proof (cases "(k, x) \<in> set (heap t)")
        case True
        with that obtain dx where dx: "dist_m t x = Some dx" "dx \<le> k" by blast
        from relax_edge_dist_mono [OF dx(1), of d u e] dx(2) show ?thesis by force
      next
        case False
        with m show ?thesis
          by (auto simp: relax_edge_def Let_def split: if_splits)
      qed
    qed
  qed
  then show "(k, x) \<in> set (heap (relax d u es s)) \<Longrightarrow>
         \<exists>dx. dist_m (relax d u es s) x = Some dx \<and> dx \<le> k" by blast
qed

lemma inv_N_init: "inv_N g start (init_state start)"
  by (rule inv_N_I) (auto simp: init_state_def split: if_splits)

lemma inv_N_skip:
  assumes inv: "inv_N g start s" and u: "u \<in> visited s"
  shows "inv_N g start (s\<lparr>heap := remove1 (d, u) (heap s)\<rparr>)"
proof -
  let ?t = "s\<lparr>heap := remove1 (d, u) (heap s)\<rparr>"
  note i = inv_N_D [OF inv]
  have sub: "(k, x) \<in> set (heap ?t) \<Longrightarrow> (k, x) \<in> set (heap s)" for k x
    using set_remove1_subset [of "(d, u)" "heap s"] by auto
  show ?thesis
  proof (rule inv_N_I)
    show "(visited ?t = {} \<and> heap ?t = [(0, start)] \<and> dist_m ?t = [start \<mapsto> 0])
        \<or> (start \<in> visited ?t \<and> dist_m ?t start = Some 0)"
      using i(1) u by auto
    show "\<exists>dy dv. dist_m ?t y = Some dy \<and> dist_m ?t v = Some dv \<and> dv \<le> dy + w"
      if "y \<in> visited ?t" "(v, w) \<in> set (graph_get g y)" for y v w
      using i(2) [of y v w] that by simp
    show "(dv, v) \<in> set (heap ?t)" if "dist_m ?t v = Some dv" "v \<notin> visited ?t" for v dv
    proof -
      have "(dv, v) \<in> set (heap s)" using i(3) [of v dv] that by simp
      moreover have "(dv, v) \<noteq> (d, u)" using that(2) u by auto
      ultimately show ?thesis by simp
    qed
    show "\<exists>dy. dist_m ?t y = Some dy \<and> dy \<le> k"
      if "y \<in> visited ?t" "(k, x) \<in> set (heap ?t)" for y k x
      using i(4) [of y k x] sub [OF that(2)] that(1) by simp
    show "\<exists>dx. dist_m ?t x = Some dx \<and> dx \<le> k" if "(k, x) \<in> set (heap ?t)" for k x
      using i(5) [of k x] sub [OF that] by simp
  qed
qed

lemma inv_N_visit:
  assumes nn: "nonneg_weights g" and inv: "inv_N g start s"
    and m: "(d, u) \<in> set (heap s)"
    and least: "\<forall>y \<in> set (heap s). \<not> tuple_less y (d, u)"
    and u: "u \<notin> visited s"
  shows "inv_N g start (relax d u (graph_get g u)
           (s\<lparr>heap := remove1 (d, u) (heap s), visited := insert u (visited s)\<rparr>))"
proof -
  let ?es = "graph_get g u"
  let ?s2 = "s\<lparr>heap := remove1 (d, u) (heap s), visited := insert u (visited s)\<rparr>"
  let ?t = "relax d u ?es ?s2"
  note i = inv_N_D [OF inv]
  have es_nn: "\<forall>(v, w) \<in> set ?es. 0 \<le> w" using nn unfolding nonneg_weights_def by blast
  have vis: "x \<in> visited ?t \<longleftrightarrow> x = u \<or> x \<in> visited s" for x by (simp add: relax_visited)
  have hk: "d \<le> k" if "(k, x) \<in> set (heap s)" for k x
    using least that by (force simp: tuple_less_def)
  have du: "dist_m s u = Some d"
  proof -
    from i(5) [OF m] obtain dx where dx: "dist_m s u = Some dx" "dx \<le> d" by blast
    from i(3) [OF dx(1) u] have "(dx, u) \<in> set (heap s)" .
    from hk [OF this] dx show ?thesis by simp
  qed
  have vd: "\<exists>dy. dist_m s y = Some dy \<and> dy \<le> d" if "y = u \<or> y \<in> visited s" for y
  proof (cases "y = u")
    case True
    with du show ?thesis by simp
  next
    case False
    with that have "y \<in> visited s" by simp
    from i(4) [OF this m] show ?thesis .
  qed
  have keep: "dist_m ?t y = dist_m s y" if "y = u \<or> y \<in> visited s" for y
  proof -
    from vd [OF that] obtain dy where dy: "dist_m s y = Some dy" "dy \<le> d" by blast
    have "dist_m ?s2 y = Some dy" using dy(1) by simp
    from relax_dist_fixed [OF es_nn this dy(2)] dy(1) show ?thesis by simp
  qed
  have sub: "(k, x) \<in> set (heap ?s2) \<Longrightarrow> (k, x) \<in> set (heap s)" for k x
    using set_remove1_subset [of "(d, u)" "heap s"] by auto
  have hm: "(k, x) \<in> set (heap ?s2) \<Longrightarrow> (k, x) \<in> set (heap ?t)" for k x
    using relax_heap_mono [of ?s2 d u ?es] by blast
  show ?thesis
  proof (rule inv_N_I)
    have "start \<in> visited ?t \<and> dist_m ?t start = Some 0"
    proof (cases "start \<in> visited s")
      case True
      with i(1) have "dist_m s start = Some 0" by auto
      with True keep [of start] vis [of start] show ?thesis by simp
    next
      case False
      with i(1) have h: "heap s = [(0, start)]" "dist_m s = [start \<mapsto> 0]" by auto
      with m have "u = start" by simp
      with h(2) keep [of start] vis [of start] show ?thesis by simp
    qed
    then show "(visited ?t = {} \<and> heap ?t = [(0, start)] \<and> dist_m ?t = [start \<mapsto> 0])
        \<or> (start \<in> visited ?t \<and> dist_m ?t start = Some 0)" by blast
    show "\<exists>dy dv. dist_m ?t y = Some dy \<and> dist_m ?t v = Some dv \<and> dv \<le> dy + w"
      if "y \<in> visited ?t" "(v, w) \<in> set (graph_get g y)" for y v w
    proof (cases "y = u")
      case True
      have "dist_m ?t y = Some d" using keep [of y] True du by simp
      moreover from relax_dist_edges [of v w ?es d u ?s2] that(2) True
      obtain b where "dist_m ?t v = Some b" "b \<le> d + w" by blast
      ultimately show ?thesis by blast
    next
      case False
      with that(1) vis [of y] have y: "y \<in> visited s" by simp
      from i(2) [OF y that(2)] obtain dy dv where
        a: "dist_m s y = Some dy" "dist_m s v = Some dv" "dv \<le> dy + w" by blast
      have "dist_m ?s2 v = Some dv" using a(2) by simp
      from relax_dist_mono [OF this, of d u ?es] obtain b where
        b: "dist_m ?t v = Some b" "b \<le> dv" by blast
      have "dist_m ?t y = Some dy" using keep [of y] y a(1) by simp
      with b a(3) show ?thesis by force
    qed
    show "(dv, v) \<in> set (heap ?t)" if "dist_m ?t v = Some dv" "v \<notin> visited ?t" for v dv
    proof -
      from that(2) vis [of v] have nv: "v \<noteq> u" "v \<notin> visited s" by simp_all
      from relax_dist_cases [OF that(1)] show ?thesis
      proof
        assume "dist_m ?s2 v = Some dv"
        then have "dist_m s v = Some dv" by simp
        from i(3) [OF this nv(2)] have "(dv, v) \<in> set (heap s)" .
        moreover have "(dv, v) \<noteq> (d, u)" using nv(1) by simp
        ultimately have "(dv, v) \<in> set (heap ?s2)" by simp
        then show ?thesis by (rule hm)
      qed
    qed
    show "\<exists>dy. dist_m ?t y = Some dy \<and> dy \<le> k"
      if "y \<in> visited ?t" "(k, x) \<in> set (heap ?t)" for y k x
    proof -
      from that(1) vis [of y] have y: "y = u \<or> y \<in> visited s" by simp
      from vd [OF y] obtain dy where dy: "dist_m s y = Some dy" "dy \<le> d" by blast
      have t: "dist_m ?t y = Some dy" using keep [OF y] dy(1) by simp
      from relax_heap_cases [OF that(2)] have "d \<le> k"
      proof
        assume "(k, x) \<in> set (heap ?s2)"
        then show ?thesis using hk sub by blast
      next
        assume "\<exists>w. (x, w) \<in> set ?es \<and> k = d + w"
        then obtain w where "(x, w) \<in> set ?es" "k = d + w" by blast
        with es_nn show ?thesis by auto
      qed
      with t dy(2) show ?thesis by simp
    qed
    show "\<exists>dx. dist_m ?t x = Some dx \<and> dx \<le> k" if "(k, x) \<in> set (heap ?t)" for k x
    proof (rule relax_heap_dist [OF _ that])
      fix k' x' assume "(k', x') \<in> set (heap ?s2)"
      then have "(k', x') \<in> set (heap s)" by (rule sub)
      from i(5) [OF this] show "\<exists>dx. dist_m ?s2 x' = Some dx \<and> dx \<le> k'" by simp
    qed
  qed
qed

lemma inv_N_step:
  assumes "nonneg_weights g" "inv_N g start s" "dijkstra_step g goal s = Inr s'"
  shows "inv_N g start s'"
proof -
  from dijkstra_step_Inr [OF assms(3)] obtain d u where
    m: "(d, u) \<in> set (heap s)" and l: "\<forall>y \<in> set (heap s). \<not> tuple_less y (d, u)" and
    c: "(u \<in> visited s \<and> s' = s\<lparr>heap := remove1 (d, u) (heap s)\<rparr>)
        \<or> (u \<notin> visited s \<and> u \<noteq> goal
            \<and> s' = relax d u (graph_get g u)
                 (s\<lparr>heap := remove1 (d, u) (heap s), visited := insert u (visited s)\<rparr>))"
    by blast
  from c show ?thesis
  proof
    assume "u \<in> visited s \<and> s' = s\<lparr>heap := remove1 (d, u) (heap s)\<rparr>"
    then show ?thesis using inv_N_skip [OF assms(2), of u d] by simp
  next
    assume a: "u \<notin> visited s \<and> u \<noteq> goal
            \<and> s' = relax d u (graph_get g u)
                 (s\<lparr>heap := remove1 (d, u) (heap s), visited := insert u (visited s)\<rparr>)"
    then have "u \<notin> visited s" by simp
    from inv_N_visit [OF assms(1,2) m l this] a show ?thesis by simp
  qed
qed

subsection \<open>Walks\<close>

lemma is_walk_snoc:
  "is_walk g u (es @ [(v, w)]) \<longleftrightarrow>
   is_walk g u es \<and> (v, w) \<in> set (graph_get g (walk_end u es))"
proof (induction es arbitrary: u)
  case Nil
  show ?case by (simp add: walk_end_def)
next
  case (Cons e es)
  obtain x c where e: "e = (x, c)" by (cases e)
  have "walk_end u (e # es) = walk_end x es" by (simp add: walk_end_def e)
  with Cons [of x] show ?case by (auto simp: e)
qed

lemma walk_to_refl: "walk_to g a a 0"
  unfolding walk_to_def
  by (rule exI [of _ "[]"]) (simp add: walk_end_def walk_weight_def)

lemma walk_to_step:
  assumes "walk_to g a u d" "(v, w) \<in> set (graph_get g u)"
  shows "walk_to g a v (d + w)"
proof -
  from assms(1) obtain es where
    es: "is_walk g a es" "walk_end a es = u" "walk_weight es = d"
    unfolding walk_to_def by blast
  have "is_walk g a (es @ [(v, w)])" using es(1,2) assms(2) by (simp add: is_walk_snoc)
  moreover have "walk_end a (es @ [(v, w)]) = v" by (simp add: walk_end_def)
  moreover have "walk_weight (es @ [(v, w)]) = d + w" using es(3) by (simp add: walk_weight_def)
  ultimately show ?thesis unfolding walk_to_def by blast
qed

subsection \<open>Every walk is bounded below by the heap or by a settled distance\<close>

lemma walk_lower_bound:
  assumes nn: "nonneg_weights g" and inv: "inv_N g start s"
  shows "is_walk g start es \<Longrightarrow>
     (walk_end start es \<in> visited s
        \<and> (\<exists>dv. dist_m s (walk_end start es) = Some dv \<and> dv \<le> walk_weight es))
     \<or> (\<exists>k x. (k, x) \<in> set (heap s) \<and> k \<le> walk_weight es)"
proof (induction es rule: rev_induct)
  case Nil
  note i = inv_N_D [OF inv]
  from i(1) show ?case
    by (auto simp: walk_end_def walk_weight_def)
next
  case (snoc e es)
  note i = inv_N_D [OF inv]
  obtain v w where e: "e = (v, w)" by (cases e)
  let ?y = "walk_end start es"
  from snoc.prems have wk: "is_walk g start es" and ed: "(v, w) \<in> set (graph_get g ?y)"
    unfolding e by (simp_all add: is_walk_snoc)
  have w0: "0 \<le> w" using nn ed unfolding nonneg_weights_def by blast
  have ww: "walk_weight (es @ [e]) = walk_weight es + w" by (simp add: walk_weight_def e)
  have we: "walk_end start (es @ [e]) = v" by (simp add: walk_end_def e)
  from snoc.IH [OF wk] show ?case
  proof
    assume "?y \<in> visited s \<and> (\<exists>dv. dist_m s ?y = Some dv \<and> dv \<le> walk_weight es)"
    then obtain dy where y: "?y \<in> visited s" "dist_m s ?y = Some dy" "dy \<le> walk_weight es"
      by blast
    from i(2) [OF y(1) ed] y(2) obtain dv where dv: "dist_m s v = Some dv" "dv \<le> dy + w"
      by auto
    have le: "dv \<le> walk_weight es + w" using dv(2) y(3) by simp
    show ?thesis
    proof (cases "v \<in> visited s")
      case True
      with dv(1) le show ?thesis unfolding ww we by blast
    next
      case False
      from i(3) [OF dv(1) False] le show ?thesis unfolding ww we by blast
    qed
  next
    assume "\<exists>k x. (k, x) \<in> set (heap s) \<and> k \<le> walk_weight es"
    then obtain k x where "(k, x) \<in> set (heap s)" "k \<le> walk_weight es" by blast
    with w0 have "(k, x) \<in> set (heap s) \<and> k \<le> walk_weight es + w" by simp
    then show ?thesis unfolding ww we by blast
  qed
qed

lemma visited_optimal:
  assumes "nonneg_weights g" "inv_N g start s" "is_walk g start es"
    "walk_end start es \<in> visited s"
  shows "\<exists>dv. dist_m s (walk_end start es) = Some dv \<and> dv \<le> walk_weight es"
proof -
  note i = inv_N_D [OF assms(2)]
  from walk_lower_bound [OF assms(1,2,3)] show ?thesis
  proof
    assume "walk_end start es \<in> visited s
        \<and> (\<exists>dv. dist_m s (walk_end start es) = Some dv \<and> dv \<le> walk_weight es)"
    then show ?thesis by blast
  next
    assume "\<exists>k x. (k, x) \<in> set (heap s) \<and> k \<le> walk_weight es"
    then obtain k x where k: "(k, x) \<in> set (heap s)" "k \<le> walk_weight es" by blast
    from i(4) [OF assms(4) k(1)] k(2) show ?thesis by force
  qed
qed

lemma dijkstra_step_Inl_least:
  assumes "dijkstra_step g goal s = Inl r" "heap s \<noteq> []"
  shows "\<exists>d. (d, goal) \<in> set (heap s) \<and> (\<forall>y \<in> set (heap s). \<not> tuple_less y (d, goal))
            \<and> goal \<notin> visited s \<and> dist_m r = dist_m s"
proof -
  from assms(2) obtain x xs where h: "heap s = x # xs" by (cases "heap s") auto
  obtain d u where du: "heap_min x xs = (d, u)" by (cases "heap_min x xs")
  have m: "(d, u) \<in> set (heap s)" using heap_min_in [of x xs] h du by simp
  have l: "\<forall>y \<in> set (heap s). \<not> tuple_less y (d, u)"
    using heap_min_least [of _ x xs] h du by simp
  have "u = goal \<and> goal \<notin> visited s \<and> dist_m r = dist_m s"
    using assms(1) h du by (auto simp: dijkstra_step_def Let_def split: if_splits)
  with m l show ?thesis by blast
qed

theorem search_distance_least:
  assumes nn: "nonneg_weights g" and sd: "search_distance g start goal = Some dg"
    and wk: "is_walk g start es" and we: "walk_end start es = goal"
  shows "dg \<le> walk_weight es"
proof -
  let ?r = "dijkstra_loop g goal (init_state start)"
  have "\<exists>s1. inv_N g start s1 \<and> dijkstra_step g goal s1 = Inl ?r"
    by (rule dijkstra_loop_rule [where I = "inv_N g start"])
      (auto intro: inv_N_init inv_N_step [OF nn])
  then obtain s1 where inv: "inv_N g start s1" and st: "dijkstra_step g goal s1 = Inl ?r"
    by blast
  note i = inv_N_D [OF inv]
  have dr: "dist_m ?r goal = Some dg" using sd by (simp add: search_distance_def)
  show ?thesis
  proof (cases "heap s1 = []")
    case True
    with st have r: "?r = s1" by (simp add: dijkstra_step_def)
    have "goal \<in> visited s1"
    proof (rule ccontr)
      assume "goal \<notin> visited s1"
      from i(3) [OF _ this, of dg] dr r True show False by simp
    qed
    with visited_optimal [OF nn inv wk] we dr r show ?thesis by simp
  next
    case False
    from dijkstra_step_Inl_least [OF st False] obtain d where
      d: "(d, goal) \<in> set (heap s1)" "\<forall>y \<in> set (heap s1). \<not> tuple_less y (d, goal)"
        "goal \<notin> visited s1" "dist_m ?r = dist_m s1"
      by blast
    from walk_lower_bound [OF nn inv wk] we d(3) obtain k x where
      k: "(k, x) \<in> set (heap s1)" "k \<le> walk_weight es" by auto
    have "d \<le> k" using d(2) k(1) by (force simp: tuple_less_def)
    moreover from i(5) [OF d(1)] dr d(4) have "dg \<le> d" by simp
    ultimately show ?thesis using k(2) by simp
  qed
qed

subsection \<open>Distances are weights of walks\<close>

lemma inv_S_init: "inv_S g start (init_state start)"
  unfolding inv_S_def init_state_def
  by (auto intro: walk_to_refl split: if_splits)

lemma inv_S_relax:
  assumes "inv_S g start s" "walk_to g start u d"
  shows "inv_S g start (relax d u (graph_get g u) s)"
proof (rule relax_rule [where P = "inv_S g start"])
  show "inv_S g start s" by (rule assms(1))
  show "inv_S g start (relax_edge d u e t)" if "e \<in> set (graph_get g u)" "inv_S g start t" for e t
  proof -
    obtain v w where e: "e = (v, w)" by (cases e)
    have n: "walk_to g start v (d + w)" using walk_to_step [OF assms(2)] that(1) e by simp
    show ?thesis
      using that(2) n unfolding inv_S_def relax_edge_def Let_def e
      by (auto split: if_splits)
  qed
qed

lemma inv_S_step:
  assumes "inv_S g start s" "dijkstra_step g goal s = Inr s'"
  shows "inv_S g start s'"
proof -
  from dijkstra_step_Inr [OF assms(2)] obtain d u where
    m: "(d, u) \<in> set (heap s)" and
    c: "(u \<in> visited s \<and> s' = s\<lparr>heap := remove1 (d, u) (heap s)\<rparr>)
        \<or> (u \<notin> visited s \<and> u \<noteq> goal
            \<and> s' = relax d u (graph_get g u)
                 (s\<lparr>heap := remove1 (d, u) (heap s), visited := insert u (visited s)\<rparr>))"
    by blast
  have sub: "set (remove1 (d, u) (heap s)) \<subseteq> set (heap s)" by (rule set_remove1_subset)
  have w: "walk_to g start u d" using assms(1) m unfolding inv_S_def by blast
  have a: "inv_S g start (s\<lparr>heap := remove1 (d, u) (heap s)\<rparr>)"
    using assms(1) sub unfolding inv_S_def by auto
  have b: "inv_S g start (s\<lparr>heap := remove1 (d, u) (heap s), visited := insert u (visited s)\<rparr>)"
    using assms(1) sub unfolding inv_S_def by auto
  from c show ?thesis
  proof
    assume "u \<in> visited s \<and> s' = s\<lparr>heap := remove1 (d, u) (heap s)\<rparr>"
    with a show ?thesis by simp
  next
    assume "u \<notin> visited s \<and> u \<noteq> goal
            \<and> s' = relax d u (graph_get g u)
                 (s\<lparr>heap := remove1 (d, u) (heap s), visited := insert u (visited s)\<rparr>)"
    with inv_S_relax [OF b w] show ?thesis by simp
  qed
qed

lemma dijkstra_step_Inl_dist:
  "dijkstra_step g goal s = Inl r \<Longrightarrow> dist_m r = dist_m s \<and> prev_m r = prev_m s"
  using dijkstra_step_Inl [of g goal s r] by auto

lemma search_distance_walk:
  assumes "search_distance g start goal = Some dg"
  shows "walk_to g start goal dg"
proof -
  let ?r = "dijkstra_loop g goal (init_state start)"
  have "\<exists>s1. inv_S g start s1 \<and> dijkstra_step g goal s1 = Inl ?r"
    by (rule dijkstra_loop_rule [where I = "inv_S g start"])
      (auto intro: inv_S_init inv_S_step)
  then obtain s1 where inv: "inv_S g start s1" and st: "dijkstra_step g goal s1 = Inl ?r"
    by blast
  from dijkstra_step_Inl_dist [OF st] assms have "dist_m s1 goal = Some dg"
    by (simp add: search_distance_def)
  with inv show ?thesis unfolding inv_S_def by blast
qed

lemma search_distance_defined:
  assumes "shortest_path g start goal = Some p" "p \<noteq> []"
  shows "\<exists>dg. search_distance g start goal = Some dg"
proof -
  let ?r = "dijkstra_loop g goal (init_state start)"
  have "\<exists>s1. inv_A g start s1 \<and> dijkstra_step g goal s1 = Inl ?r"
    by (rule dijkstra_loop_rule [where I = "inv_A g start"])
      (auto intro: inv_A_init inv_A_step)
  then obtain s1 where inv: "inv_A g start s1" and st: "dijkstra_step g goal s1 = Inl ?r"
    by blast
  from shortest_path_Some [OF assms] have "goal \<in> dom (prev_m ?r)" by blast
  then have "goal \<in> dom (dist_m ?r)"
    using inv_A_D(1) [OF inv] dijkstra_step_Inl_dist [OF st] by simp
  then show ?thesis unfolding search_distance_def by blast
qed

subsection \<open>The haversine distance is not negative\<close>

lemma hav_a_range: "0 \<le> hav_a lat1 lon1 lat2 lon2 \<and> hav_a lat1 lon1 lat2 lon2 \<le> 1"
proof -
  let ?p1 = "radians lat1" and ?p2 = "radians lat2"
  define t where "t = (sin (radians (lon2 - lon1) / 2))\<^sup>2"
  define c where "c = cos ?p1 * cos ?p2"
  define s where "s = sin ?p1 * sin ?p2"
  have dphi: "radians (lat2 - lat1) = ?p2 - ?p1"
    by (simp add: radians_def field_simps)
  have t0: "0 \<le> t" unfolding t_def by simp
  have "t + (cos (radians (lon2 - lon1) / 2))\<^sup>2 = 1" unfolding t_def by simp
  moreover have "0 \<le> (cos (radians (lon2 - lon1) / 2))\<^sup>2" by simp
  ultimately have t1: "t \<le> 1" by linarith
  have half: "(sin (x / 2))\<^sup>2 = (1 - cos x) / 2" for x :: real
    using cos_double_sin [of "x / 2"] by simp
  have h: "(sin (radians (lat2 - lat1) / 2))\<^sup>2 = (1 - (c + s)) / 2"
    unfolding dphi half cos_diff c_def s_def by (simp add: mult.commute)
  have e: "hav_a lat1 lon1 lat2 lon2 = (1 - s - c * (1 - 2 * t)) / 2"
    unfolding hav_a_def Let_def h t_def [symmetric] c_def [symmetric]
    by (simp add: field_simps)
  have b1: "2 * \<bar>c\<bar> \<le> (cos ?p1)\<^sup>2 + (cos ?p2)\<^sup>2"
    using sum_squares_bound [of "\<bar>cos ?p1\<bar>" "\<bar>cos ?p2\<bar>"] by (simp add: c_def abs_mult)
  have b2: "2 * \<bar>s\<bar> \<le> (sin ?p1)\<^sup>2 + (sin ?p2)\<^sup>2"
    using sum_squares_bound [of "\<bar>sin ?p1\<bar>" "\<bar>sin ?p2\<bar>"] by (simp add: s_def abs_mult)
  have one: "(sin ?p1)\<^sup>2 + (cos ?p1)\<^sup>2 = 1" "(sin ?p2)\<^sup>2 + (cos ?p2)\<^sup>2 = 1" by simp_all
  have cs: "\<bar>c\<bar> + \<bar>s\<bar> \<le> 1" using b1 b2 one by linarith
  have m: "\<bar>c * (1 - 2 * t)\<bar> \<le> \<bar>c\<bar>"
  proof -
    have "\<bar>1 - 2 * t\<bar> \<le> 1" using t0 t1 by (simp add: abs_le_iff)
    then have "\<bar>c\<bar> * \<bar>1 - 2 * t\<bar> \<le> \<bar>c\<bar> * 1" by (intro mult_left_mono) simp_all
    then show ?thesis by (simp add: abs_mult)
  qed
  have "\<bar>s + c * (1 - 2 * t)\<bar> \<le> 1" using cs m by linarith
  then show ?thesis unfolding e by (simp add: abs_le_iff)
qed

lemma atan2_nonneg: "0 \<le> y \<Longrightarrow> 0 \<le> x \<Longrightarrow> 0 \<le> atan2 y x"
  unfolding atan2_def by (auto simp: zero_le_arctan_iff)

lemma haversine_m_nonneg: "0 \<le> haversine_m lat1 lon1 lat2 lon2"
proof -
  have r: "0 \<le> hav_a lat1 lon1 lat2 lon2" "hav_a lat1 lon1 lat2 lon2 \<le> 1"
    using hav_a_range [of lat1 lon1 lat2 lon2] by simp_all
  have "0 \<le> atan2 (sqrt (hav_a lat1 lon1 lat2 lon2)) (sqrt (1 - hav_a lat1 lon1 lat2 lon2))"
    using r by (intro atan2_nonneg) simp_all
  then show ?thesis unfolding haversine_m_def Let_def by simp
qed

section \<open>The hybrid search against the pedestrian search\<close>

subsection \<open>The hybrid graph contains the pedestrian graph\<close>

lemma nonneg_weights_append:
  assumes "nonneg_weights g" "0 \<le> w"
  shows "nonneg_weights (graph_append (graph_append g u (v, w)) v (u, w))"
  using assms unfolding nonneg_weights_def graph_get_append
  by (auto split: if_splits)

lemma hybrid_ped_way_nonneg:
  "0 \<le> pw \<Longrightarrow> nonneg_weights (fst s) \<Longrightarrow> nonneg_weights (fst (hybrid_ped_way nt pw c ids s))"
proof (induction nt pw c ids s rule: hybrid_ped_way.induct)
  case (1 nt pw c u v rest g et)
  show ?case
  proof (cases "map_of nt u = None \<or> map_of nt v = None")
    case True
    with 1 show ?thesis by (auto split: option.splits)
  next
    case False
    then obtain lat1 lon1 lat2 lon2 where
      c: "map_of nt u = Some (lat1, lon1)" "map_of nt v = Some (lat2, lon2)" by auto
    let ?w = "haversine_m lat1 lon1 lat2 lon2 * pw"
    have "0 \<le> ?w" using haversine_m_nonneg [of lat1 lon1 lat2 lon2] "1.prems"(1) by simp
    with "1.prems"(2) have "nonneg_weights (graph_append (graph_append g u (v, ?w)) v (u, ?w))"
      by (simp add: nonneg_weights_append)
    with 1 c show ?thesis by (simp add: Let_def)
  qed
qed auto

lemma hybrid_hw_way_nonneg:
  "0 \<le> hw \<Longrightarrow> nonneg_weights (fst s) \<Longrightarrow> nonneg_weights (fst (hybrid_hw_way nt hw ids s))"
proof (induction nt hw ids s rule: hybrid_hw_way.induct)
  case (1 nt hw u v rest g et)
  show ?case
  proof (cases "map_of nt u = None \<or> map_of nt v = None")
    case True
    with 1 show ?thesis by (auto split: option.splits)
  next
    case False
    then obtain lat1 lon1 lat2 lon2 where
      c: "map_of nt u = Some (lat1, lon1)" "map_of nt v = Some (lat2, lon2)" by auto
    let ?w = "haversine_m lat1 lon1 lat2 lon2 * hw"
    have "0 \<le> ?w" using haversine_m_nonneg [of lat1 lon1 lat2 lon2] "1.prems"(1) by simp
    with "1.prems"(2) have "nonneg_weights (graph_append (graph_append g u (v, ?w)) v (u, ?w))"
      by (simp add: nonneg_weights_append)
    with 1 c show ?thesis by (simp add: Let_def)
  qed
qed auto

lemma hybrid_hw_way_mono:
  "e \<in> set (graph_get (fst s) x) \<Longrightarrow> e \<in> set (graph_get (fst (hybrid_hw_way nt hw ids s)) x)"
proof (induction nt hw ids s rule: hybrid_hw_way.induct)
  case (1 nt hw u v rest g et)
  show ?case
  proof (cases "map_of nt u = None \<or> map_of nt v = None")
    case True
    with 1 show ?thesis by (auto split: option.splits)
  next
    case False
    then obtain lat1 lon1 lat2 lon2 where
      c: "map_of nt u = Some (lat1, lon1)" "map_of nt v = Some (lat2, lon2)" by auto
    let ?w = "haversine_m lat1 lon1 lat2 lon2 * hw"
    have "e \<in> set (graph_get (graph_append (graph_append g u (v, ?w)) v (u, ?w)) x)"
      using "1.prems" by (auto simp: graph_get_append)
    with 1 c show ?thesis by (simp add: Let_def)
  qed
qed auto

lemma fold_preserves:
  assumes "Q s0" and "\<And>w t. w \<in> set ws \<Longrightarrow> Q t \<Longrightarrow> Q (step w t)"
  shows "Q (fold step ws s0)"
  using assms by (induction ws arbitrary: s0) auto

lemma build_hybrid_graph_nonneg:
  assumes "0 \<le> pw" "0 \<le> hw"
  shows "nonneg_weights (fst (build_hybrid_graph nt ped_ways hw_ways pw hw))"
  unfolding build_hybrid_graph_def
proof (rule fold_preserves [where Q = "\<lambda>s. nonneg_weights (fst s)"])
  show "nonneg_weights
     (fst (fold (\<lambda>w. hybrid_ped_way nt pw (way_category w) (nodes w)) ped_ways ([], Map.empty)))"
  proof (rule fold_preserves [where Q = "\<lambda>s. nonneg_weights (fst s)"])
    show "nonneg_weights (fst ([], Map.empty :: edge_types))"
      by (simp add: nonneg_weights_def graph_get_def)
  qed (rule hybrid_ped_way_nonneg [OF assms(1)])
qed (rule hybrid_hw_way_nonneg [OF assms(2)])

lemma build_hybrid_graph_contains:
  assumes "build_graph nt ped_ways = Inr (gp, etp)" "e \<in> set (graph_get gp x)"
  shows "e \<in> set (graph_get (fst (build_hybrid_graph nt ped_ways hw_ways 1 hw)) x)"
  unfolding build_hybrid_graph_def
proof (rule fold_preserves [where Q = "\<lambda>s. e \<in> set (graph_get (fst s) x)"])
  have "fst (fold (\<lambda>w. hybrid_ped_way nt 1 (way_category w) (nodes w)) ped_ways
          ([], Map.empty)) = gp"
    using hybrid_ped_ways_graph [of nt ped_ways "([], Map.empty)" "(gp, etp)" Map.empty] assms(1)
    by (simp add: build_graph_def)
  with assms(2) show "e \<in> set (graph_get (fst (fold (\<lambda>w. hybrid_ped_way nt 1 (way_category w)
      (nodes w)) ped_ways ([], Map.empty))) x)" by simp
qed (rule hybrid_hw_way_mono)

lemma is_walk_mono:
  assumes "\<And>e x. e \<in> set (graph_get g x) \<Longrightarrow> e \<in> set (graph_get h x)"
  shows "is_walk g a es \<Longrightarrow> is_walk h a es"
proof (induction es arbitrary: a)
  case Nil
  show ?case by simp
next
  case (Cons e es)
  obtain v w where e: "e = (v, w)" by (cases e)
  with Cons assms [of "(v, w)" a] show ?case by simp
qed

text \<open>
  Claim C6, amended. When both searches find a path between the same two nodes, the
  distance found in the hybrid graph (pedestrian weight 1.0, road weight 3.0) is less
  than or equal to the distance found in the pedestrian graph built from the same
  pedestrian ways: the hybrid graph contains every pedestrian edge with its weight, and
  the search returns a least-weight walk.
\<close>

theorem hybrid_search_not_longer:
  assumes "build_graph nt pedestrian_ways = Inr (gp, etp)"
    and "build_hybrid_graph nt pedestrian_ways highway_ways 1 3 = (gh, eth)"
    and "shortest_path gp s t = Some pp" "pp \<noteq> []"
    and "shortest_path gh s t = Some ph" "ph \<noteq> []"
  shows "\<exists>dp dh. search_distance gp s t = Some dp \<and> search_distance gh s t = Some dh
           \<and> dh \<le> dp"
proof -
  from search_distance_defined [OF assms(3,4)] obtain dp where
    dp: "search_distance gp s t = Some dp" by blast
  from search_distance_defined [OF assms(5,6)] obtain dh where
    dh: "search_distance gh s t = Some dh" by blast
  have gh: "gh = fst (build_hybrid_graph nt pedestrian_ways highway_ways 1 3)"
    using assms(2) by simp
  have nn: "nonneg_weights gh"
    unfolding gh by (rule build_hybrid_graph_nonneg) simp_all
  from search_distance_walk [OF dp] obtain es where
    es: "is_walk gp s es" "walk_end s es = t" "walk_weight es = dp"
    unfolding walk_to_def by blast
  have "is_walk gh s es"
  proof (rule is_walk_mono [OF _ es(1)])
    fix e x assume "e \<in> set (graph_get gp x)"
    then show "e \<in> set (graph_get gh x)"
      unfolding gh by (rule build_hybrid_graph_contains [OF assms(1)])
  qed
  from search_distance_least [OF nn dh this es(2)] es(3) have "dh \<le> dp" by simp
  with dp dh show ?thesis by blast
qed

subsection \<open>A road shorter than the footway\<close>

lemma deg_m_pos: "0 < deg_m"
  by (simp add: deg_m_def)

lemma haversine_m_equator:
  assumes "\<bar>b - a\<bar> < 180"
  shows "haversine_m 0 a 0 b = deg_m * \<bar>b - a\<bar>"
proof -
  define x where "x = radians (b - a) / 2"
  have x_eq: "x = (b - a) * pi / 360" by (simp add: x_def radians_def)
  have "\<bar>x\<bar> = \<bar>b - a\<bar> * pi / 360" unfolding x_eq by (simp add: abs_mult)
  also have "\<dots> < 180 * pi / 360" using assms by simp
  finally have xr: "\<bar>x\<bar> < pi / 2" by simp
  have cp: "0 < cos x" using xr by (intro cos_gt_zero_pi) (simp_all add: abs_less_iff)
  have a: "hav_a 0 a 0 b = (sin x)\<^sup>2"
    by (simp add: hav_a_def Let_def radians_def x_def)
  have s1: "sqrt ((sin x)\<^sup>2) = \<bar>sin x\<bar>" by simp
  have "1 - (sin x)\<^sup>2 = (cos x)\<^sup>2" by (simp add: cos_squared_eq)
  then have s2: "sqrt (1 - (sin x)\<^sup>2) = cos x" using cp by simp
  have sa: "\<bar>sin x\<bar> = sin \<bar>x\<bar>"
  proof (cases "0 \<le> x")
    case True
    then have "0 \<le> sin x" using xr by (intro sin_ge_zero) (simp_all add: abs_less_iff)
    with True show ?thesis by simp
  next
    case False
    then have "0 \<le> sin (- x)" using xr by (intro sin_ge_zero) (simp_all add: abs_less_iff)
    with False show ?thesis by simp
  qed
  have "atan2 \<bar>sin x\<bar> (cos x) = arctan (\<bar>sin x\<bar> / cos x)" using cp by (simp add: atan2_def)
  also have "\<bar>sin x\<bar> / cos x = tan \<bar>x\<bar>" unfolding sa tan_def by simp
  also have "arctan (tan \<bar>x\<bar>) = \<bar>x\<bar>" using xr by (intro arctan_tan) simp_all
  finally have "atan2 \<bar>sin x\<bar> (cos x) = \<bar>x\<bar>" .
  then have "haversine_m 0 a 0 b = 6371000 * (2 * \<bar>x\<bar>)"
    unfolding haversine_m_def Let_def a s1 s2 by simp
  also have "\<dots> = deg_m * \<bar>b - a\<bar>"
    unfolding x_eq deg_m_def by (simp add: abs_mult)
  finally show ?thesis .
qed

lemma haversine_m_6:
  "haversine_m 0 0 0 5 = 5 * deg_m" "haversine_m 0 5 0 1 = 4 * deg_m"
  "haversine_m 0 0 0 1 = deg_m"
  using haversine_m_equator [of 5 0] haversine_m_equator [of 1 5] haversine_m_equator [of 1 0]
  by simp_all

lemma build_graph_6: "build_graph nt6 ped6 = Inr (gp6, [{1, 2} \<mapsto> ''foot_path'', {2, 3} \<mapsto> ''foot_path''])"
  by (simp add: build_graph_def nt6_def ped6_def gp6_def way_category_def rank_update_def
      Let_def haversine_m_6)

lemma build_hybrid_graph_6:
  "build_hybrid_graph nt6 ped6 hw6 1 3
   = (gh6, [{1, 2} \<mapsto> ''foot_path'', {2, 3} \<mapsto> ''foot_path'', {1, 3} \<mapsto> ''highway''])"
  by (simp add: build_hybrid_graph_def nt6_def ped6_def hw6_def gh6_def way_category_def
      Let_def haversine_m_6 doubleton_eq_iff)

lemmas search_eval = shortest_path_def search_distance_def dijkstra_loop.simps dijkstra_step_def
  init_state_def graph_get_def relax_def relax_edge_def tuple_less_def reconstruct.simps Let_def

lemma search_gp6:
  "shortest_path gp6 1 3 = Some [1, 2, 3]" "search_distance gp6 1 3 = Some (9 * deg_m)"
  using deg_m_pos by (simp_all add: search_eval gp6_def)

lemma search_gh6:
  "shortest_path gh6 1 3 = Some [1, 3]" "search_distance gh6 1 3 = Some (3 * deg_m)"
  using deg_m_pos by (simp_all add: search_eval gh6_def)

text \<open>
  Claim C6, as the specification states it: the distance found in the hybrid graph is
  greater than or equal to the one found in the pedestrian graph. With a footway of
  5 + 4 degrees and a road of 1 degree between the same endpoints, the pedestrian search
  finds 9 degrees and the hybrid search finds the road at 3 times 1 degree.
\<close>

theorem hybrid_search_shorter_counterexample:
  "build_graph nt6 ped6 = Inr (gp6, [{1, 2} \<mapsto> ''foot_path'', {2, 3} \<mapsto> ''foot_path''])
   \<and> build_hybrid_graph nt6 ped6 hw6 1 3
       = (gh6, [{1, 2} \<mapsto> ''foot_path'', {2, 3} \<mapsto> ''foot_path'', {1, 3} \<mapsto> ''highway''])
   \<and> shortest_path gp6 1 3 = Some [1, 2, 3] \<and> shortest_path gh6 1 3 = Some [1, 3]
   \<and> search_distance gp6 1 3 = Some (9 * deg_m)
   \<and> search_distance gh6 1 3 = Some (3 * deg_m)
   \<and> \<not> 9 * deg_m \<le> 3 * deg_m"
  using build_graph_6 build_hybrid_graph_6 search_gp6 search_gh6 deg_m_pos by simp

theorem hybrid_search_not_longer_witness:
  "build_graph nt6 ped6 = Inr (gp6, [{1, 2} \<mapsto> ''foot_path'', {2, 3} \<mapsto> ''foot_path''])
   \<and> build_hybrid_graph nt6 ped6 hw6 1 3
       = (gh6, [{1, 2} \<mapsto> ''foot_path'', {2, 3} \<mapsto> ''foot_path'', {1, 3} \<mapsto> ''highway''])
   \<and> shortest_path gp6 1 3 = Some [1, 2, 3] \<and> shortest_path gh6 1 3 = Some [1, 3]
   \<and> 3 * deg_m \<le> 9 * deg_m"
  using hybrid_search_not_longer [OF build_graph_6 build_hybrid_graph_6 search_gp6(1) _
      search_gh6(1)]
    build_graph_6 build_hybrid_graph_6 search_gp6 search_gh6
  by simp

end
